theory Spec2Isabelle
  imports Main "HOL-Library.Monad_Syntax"
begin

section \<open>JavaScript values\<close>

text \<open>
  The values that flow through the container.  Objects and functions are references
  (\<open>Obj\<close>, \<open>Fun\<close>); what a function does when it is called lives in a function table,
  below.  The three error classes of the module are \<open>Error\<close>, the engine's \<open>TypeError\<close>
  and the module's own \<open>class ProviderNotFound extends Error\<close>, whose only state is the
  optional field \<open>_parents\<close>.  A \<open>Thenable\<close> is a promise together with the way it
  settles; objects other than thenables carry no callable \<open>then\<close> or \<open>catch\<close> member.
  The text of a \<open>TypeError\<close> raised by the engine is implementation defined; the model
  uses a short description of the failing operation.
\<close>

datatype val =
    Undefined
  | Null
  | Bool bool
  | Num int
  | Str string
  | Obj nat
  | Fun nat
  | Error string
  | TypeError string
  | ProviderNotFound string "string list option"
  | Thenable settle
and settle =
    Fulfils val
  | Rejects val
  | Never

text \<open>
  How a promise ends.  \<open>Rejected es\<close> is a rejection whose reason is one of \<open>es\<close>:
  \<open>Promise.all\<close> rejects with whichever of its inputs rejects first in time, and the
  model does not order rejections in time, so it keeps every candidate, in dependency
  order.  A list of one element is an exact reason.
\<close>

datatype 'a outcome = Fulfilled 'a | Rejected "val list" | Pending

text \<open>\<open>Promise.resolve(x)\<close>: a thenable is followed, anything else fulfils as it is.\<close>

fun resolve :: "val \<Rightarrow> val outcome" and settled :: "settle \<Rightarrow> val outcome" where
  "resolve (Thenable s) = settled s"
| "resolve v = Fulfilled v"
| "settled (Fulfils v) = resolve v"
| "settled (Rejects e) = Rejected [e]"
| "settled Never = Pending"

fun isThenable :: "val \<Rightarrow> bool" where
  "isThenable (Thenable s) = True"
| "isThenable v = False"

text \<open>
  What a synchronous call does: it returns or it throws.  A function value has a
  \<open>$ij\<close> member (\<open>Some\<close> when it is an array), a source text, and a behaviour when
  called and when used with \<open>new\<close>; both are functions of the arguments alone.
\<close>

datatype completion = Return val | Throw val

record fn_info =
  ij :: "string list option"
  toString :: string
  call :: "val list \<Rightarrow> completion"
  construct :: "val list \<Rightarrow> completion"

type_synonym fns = "nat \<Rightarrow> fn_info"

fun typeof :: "val \<Rightarrow> string" where
  "typeof Undefined = ''undefined''"
| "typeof (Bool b) = ''boolean''"
| "typeof (Num n) = ''number''"
| "typeof (Str s) = ''string''"
| "typeof (Fun f) = ''function''"
| "typeof v = ''object''"

section \<open>Dependency names of a factory\<close>

definition startsWith :: "string \<Rightarrow> string \<Rightarrow> bool" where
  "startsWith s p = (take (length p) s = p)"

definition isWordChar :: "char \<Rightarrow> bool" where
  "isWordChar c =
     (let n = (of_char c :: nat)
      in (48 \<le> n \<and> n \<le> 57) \<or> (65 \<le> n \<and> n \<le> 90) \<or> n = 95 \<or> (97 \<le> n \<and> n \<le> 122))"

text \<open>The index of the first match of \<open>/\bconstructor\b/\<close>.\<close>

definition constructorMatch :: "string \<Rightarrow> nat option" where
  "constructorMatch s =
     List.find (\<lambda>i. take 11 (drop i s) = ''constructor''
                   \<and> (i = 0 \<or> \<not> isWordChar (s ! (i - 1)))
                   \<and> (length s \<le> i + 11 \<or> \<not> isWordChar (s ! (i + 11))))
       [0..<length s]"

text \<open>\<open>s.indexOf(c, k)\<close>, which is \<open>-1\<close> when there is no occurrence from \<open>k\<close> on.\<close>

definition indexOf :: "string \<Rightarrow> char \<Rightarrow> nat \<Rightarrow> int" where
  "indexOf s c k =
     (case List.find (\<lambda>i. s ! i = c) [k..<length s] of None \<Rightarrow> - 1 | Some i \<Rightarrow> int i)"

text \<open>\<open>s.substring(a, b)\<close>: both ends are clamped to the string and swapped when reversed.\<close>

definition substring :: "string \<Rightarrow> int \<Rightarrow> int \<Rightarrow> string" where
  "substring s a b =
     (let n = int (length s);
          a' = max 0 (min a n);
          b' = max 0 (min b n)
      in take (nat (max a' b' - min a' b')) (drop (nat (min a' b')) s))"

definition isSpace :: "char \<Rightarrow> bool" where
  "isSpace c = (let n = (of_char c :: nat) in n = 32 \<or> (9 \<le> n \<and> n \<le> 13))"

definition trim :: "string \<Rightarrow> string" where
  "trim s = rev (dropWhile isSpace (rev (dropWhile isSpace s)))"

fun split :: "char \<Rightarrow> string \<Rightarrow> string list" where
  "split c [] = [[]]"
| "split c (x # xs) =
     (if x = c then [] # split c xs
      else (case split c xs of [] \<Rightarrow> [[x]] | w # ws \<Rightarrow> (x # w) # ws))"

definition getDependencyNames :: "fn_info \<Rightarrow> string list" where
  "getDependencyNames fn =
     (case ij fn of
        Some names \<Rightarrow> names
      | None \<Rightarrow>
          (let fnStr = toString fn
           in case (if startsWith fnStr ''class'' then constructorMatch fnStr else Some 0) of
                None \<Rightarrow> []
              | Some keywordIdx \<Rightarrow>
                  (let leftParenIdx = indexOf fnStr (CHR ''('') keywordIdx;
                       rightParenIdx = indexOf fnStr (CHR '')'') keywordIdx;
                       params = trim (substring fnStr (leftParenIdx + 1) rightParenIdx)
                   in if params = [] then [] else map trim (split (CHR '','') params))))"

section \<open>Providers and the Registry\<close>

datatype ProviderType = CONSTANT | CTOR | FN

text \<open>
  An element of the \<open>dependencies\<close> array of a provider.  \<open>_add\<close> stores there what
  \<open>options.using[d] || d\<close> evaluates to, which is a string or, when the \<open>using\<close> object has
  no member of its own for \<open>d\<close> and \<open>Object.prototype\<close> has one, the value of that member:
  a function object (for \<open>__proto__\<close> the prototype object itself).  \<open>Name k\<close> is the
  string \<open>k\<close>, and \<open>Inherited m\<close> is the value of \<open>Object.prototype[m]\<close>.
\<close>

datatype dep = Name string | Inherited string

record Provider =
  name :: string
  type :: ProviderType
  factory :: val
  dependencies :: "dep list"
  isCacheable :: bool

text \<open>
  A Registry object has the single field \<open>_providers\<close>, an \<open>immutable.Map\<close>: a value,
  whose \<open>set\<close> returns a new map.
\<close>

record Registry =
  reg_providers :: "string \<rightharpoonup> Provider"

definition new_Registry :: "(string \<rightharpoonup> Provider) option \<Rightarrow> Registry" where
  "new_Registry opt_providers =
     \<lparr>reg_providers = (case opt_providers of None \<Rightarrow> Map.empty | Some m \<Rightarrow> m)\<rparr>"

text \<open>
  The options object of a registration.  \<open>_add\<close> reads \<open>using\<close> and \<open>isCacheable\<close>;
  \<open>override\<close> is a member the caller may set and no line of the module reads.  The
  \<open>using\<close> member is a plain object: \<open>opt_using\<close> holds its own members, from a
  dependency name to a registry name, and its prototype is \<open>Object.prototype\<close>.
\<close>

record options =
  opt_using :: "(string \<rightharpoonup> string) option"
  opt_isCacheable :: bool
  opt_override :: bool

text \<open>
  The options argument of \<open>ctor\<close>, \<open>fn\<close> and \<open>_add\<close>: left out (or \<open>undefined\<close>), \<open>null\<close>,
  or an options object.
\<close>

datatype options_arg = Omitted | NullOptions | Options options

text \<open>The object \<open>{}\<close>, which the parameter default \<open>options={}\<close> of \<open>_add\<close> evaluates to.\<close>

definition no_options :: options where
  "no_options = \<lparr>opt_using = None, opt_isCacheable = False, opt_override = False\<rparr>"

text \<open>The names of the members of \<open>Object.prototype\<close>; the value of each is truthy.\<close>

definition objectPrototype :: "string list" where
  "objectPrototype =
     [''constructor'', ''__defineGetter__'', ''__defineSetter__'', ''hasOwnProperty'',
      ''__lookupGetter__'', ''__lookupSetter__'', ''isPrototypeOf'', ''propertyIsEnumerable'',
      ''toString'', ''valueOf'', ''__proto__'', ''toLocaleString'']"

text \<open>
  \<open>options.using[d] || d\<close>.  The property read finds a member of the object itself, else
  a member of \<open>Object.prototype\<close>, else \<open>undefined\<close>; the empty string and \<open>undefined\<close> are
  falsy.
\<close>

definition mapDep :: "(string \<rightharpoonup> string) \<Rightarrow> string \<Rightarrow> dep" where
  "mapDep u d =
     (case u d of
        Some m \<Rightarrow> if m = [] then Name d else Name m
      | None \<Rightarrow> if d \<in> set objectPrototype then Inherited d else Name d)"

text \<open>
  \<open>_add\<close>.  The default \<open>options={}\<close> replaces a missing argument only: for \<open>null\<close> the
  read of \<open>options.using\<close> throws a \<open>TypeError\<close>.
\<close>

definition private_add ::
  "Registry \<Rightarrow> string \<Rightarrow> ProviderType \<Rightarrow> val \<Rightarrow> string list \<Rightarrow> options_arg \<Rightarrow> val + Registry" where
  "private_add this n t fac deps opt_options =
     (case (case opt_options of
              Omitted \<Rightarrow> Some no_options
            | NullOptions \<Rightarrow> None
            | Options given \<Rightarrow> Some given) of
        None \<Rightarrow> Inl (TypeError ''Cannot read property using of null'')
      | Some opts \<Rightarrow>
          (let mappedDeps =
                 (case opt_using opts of None \<Rightarrow> map Name deps | Some u \<Rightarrow> map (mapDep u) deps);
               provider = \<lparr>name = n, type = t, factory = fac, dependencies = mappedDeps,
                           isCacheable = opt_isCacheable opts\<rparr>
           in Inr (new_Registry (Some ((reg_providers this)(n \<mapsto> provider))))))"

text \<open>\<open>assert\<close> throws an \<open>Error\<close> with the message when the condition is falsy.\<close>

definition assert :: "bool \<Rightarrow> string \<Rightarrow> val + unit" where
  "assert b msg = (if \<not> b then Inl (Error msg) else Inr ())"

definition Registry_ctor :: "fns \<Rightarrow> Registry \<Rightarrow> string \<Rightarrow> val \<Rightarrow> options_arg \<Rightarrow> val + Registry" where
  "Registry_ctor F this n Ctor opt_options =
     (case assert (typeof Ctor = ''function'')
             (''Cannot provide nonfunction for constructor provider '' @ n) of
        Inl e \<Rightarrow> Inl e
      | Inr _ \<Rightarrow>
          (case Ctor of
             Fun f \<Rightarrow> private_add this n CTOR Ctor (getDependencyNames (F f)) opt_options
           | _ \<Rightarrow> Inl (TypeError ''not a function'')))"

definition Registry_constant :: "Registry \<Rightarrow> string \<Rightarrow> val \<Rightarrow> val + Registry" where
  "Registry_constant this n c =
     (case assert (c \<noteq> Null \<and> c \<noteq> Undefined) (''Cannot provide null for constant provider '' @ n) of
        Inl e \<Rightarrow> Inl e
      | Inr _ \<Rightarrow> private_add this n CONSTANT c [] Omitted)"

definition Registry_fn :: "fns \<Rightarrow> Registry \<Rightarrow> string \<Rightarrow> val \<Rightarrow> options_arg \<Rightarrow> val + Registry" where
  "Registry_fn F this n f opt_options =
     (case assert (typeof f = ''function'')
             (''Cannot provide nonfunction for function provider '' @ n) of
        Inl e \<Rightarrow> Inl e
      | Inr _ \<Rightarrow>
          (case f of
             Fun g \<Rightarrow> private_add this n FN f (getDependencyNames (F g)) opt_options
           | _ \<Rightarrow> Inl (TypeError ''not a function'')))"

section \<open>The Injector\<close>

record Injector =
  inj_providers :: "string \<rightharpoonup> Provider"
  inj_cache :: "string \<rightharpoonup> val"

definition new_Injector :: "(string \<rightharpoonup> Provider) \<Rightarrow> Injector" where
  "new_Injector ps = \<lparr>inj_providers = ps, inj_cache = Map.empty\<rparr>"

definition buildInjector :: "Registry \<Rightarrow> Injector" where
  "buildInjector this = new_Injector (reg_providers this)"

text \<open>
  What a call of \<open>build\<close> does besides returning.  \<open>Invoke n args\<close>: the factory of the
  provider \<open>n\<close> is called, or constructed with \<open>new\<close>, on \<open>args\<close>.  \<open>CacheSet n v\<close>: the
  assignment \<open>this._cache = this._cache.set(n, v)\<close>.
\<close>

datatype event = Invoke string "val list" | CacheSet string val

text \<open>
  The getter \<open>parents\<close> of a \<open>ProviderNotFound\<close> returns \<open>this._parents || []\<close>, and there
  is no setter.  \<open>err.parents.push(n)\<close> therefore changes the error only when \<open>_parents\<close>
  is set; otherwise it pushes onto an array that is dropped.
\<close>

fun parents :: "val \<Rightarrow> string list" where
  "parents (ProviderNotFound msg (Some ps)) = ps"
| "parents v = []"

fun parents_push :: "string \<Rightarrow> val \<Rightarrow> val" where
  "parents_push n (ProviderNotFound msg (Some ps)) = ProviderNotFound msg (Some (ps @ [n]))"
| "parents_push n v = v"

fun join :: "string \<Rightarrow> string list \<Rightarrow> string" where
  "join sep [] = []"
| "join sep [x] = x"
| "join sep (x # y # ys) = x @ sep @ join sep (y # ys)"

text \<open>
  The entry of an \<open>immutable.Map\<close> for a key.  The keys of the maps of the module are
  names, which are strings, so there is no entry for a key that is not a string.
\<close>

fun lookup :: "(string \<rightharpoonup> 'a) \<Rightarrow> dep \<Rightarrow> 'a option" where
  "lookup m (Name k) = m k"
| "lookup m (Inherited x) = None"

text \<open>\<open>m.get(k)\<close> of an \<open>immutable.Map\<close>: \<open>undefined\<close> for a missing key.\<close>

definition get :: "(string \<rightharpoonup> val) \<Rightarrow> dep \<Rightarrow> val" where
  "get m k = (case lookup m k of None \<Rightarrow> Undefined | Some v \<Rightarrow> v)"

text \<open>\<open>new immutable.Map().merge(...ms)\<close>: a later map wins on a shared key.\<close>

definition merge :: "(string \<rightharpoonup> val) list \<Rightarrow> (string \<rightharpoonup> val)" where
  "merge ms = foldl (++) Map.empty ms"

fun isRejected :: "'a outcome \<Rightarrow> bool" where
  "isRejected (Rejected es) = True"
| "isRejected p = False"

fun rejections :: "'a outcome list \<Rightarrow> val list" where
  "rejections [] = []"
| "rejections (Rejected es # ps) = es @ rejections ps"
| "rejections (p # ps) = rejections ps"

fun fulfilments :: "'a outcome list \<Rightarrow> 'a list option" where
  "fulfilments [] = Some []"
| "fulfilments (Fulfilled x # ps) = map_option ((#) x) (fulfilments ps)"
| "fulfilments (p # ps) = None"

text \<open>
  \<open>Promise.all\<close>: rejected as soon as one input is, fulfilled with every value, in the
  order of the inputs, when all are, and pending for ever otherwise.
\<close>

definition Promise_all :: "'a outcome list \<Rightarrow> 'a list outcome" where
  "Promise_all ps =
     (if list_ex isRejected ps then Rejected (rejections ps)
      else case fulfilments ps of Some xs \<Rightarrow> Fulfilled xs | None \<Rightarrow> Pending)"

definition apply_fn :: "fns \<Rightarrow> val \<Rightarrow> val list \<Rightarrow> completion" where
  "apply_fn F f args =
     (case f of Fun g \<Rightarrow> call (F g) args | _ \<Rightarrow> Throw (TypeError ''provider.factory is not a function''))"

definition new_fn :: "fns \<Rightarrow> val \<Rightarrow> val list \<Rightarrow> completion" where
  "new_fn F f args =
     (case f of Fun g \<Rightarrow> construct (F g) args
      | _ \<Rightarrow> Throw (TypeError ''provider.factory is not a constructor''))"

text \<open>
  \<open>_buildProvider\<close>.  A factory that throws makes the enclosing \<open>then\<close> callback throw,
  which rejects the promise of that \<open>then\<close> with what was thrown.
\<close>

definition private_buildProvider ::
  "fns \<Rightarrow> Provider \<Rightarrow> (string \<rightharpoonup> val) \<Rightarrow> event list \<times> val outcome" where
  "private_buildProvider F provider results =
     (let args = map (get results) (dependencies provider)
      in case type provider of
           CONSTANT \<Rightarrow> ([], resolve (factory provider))
         | CTOR \<Rightarrow>
             ([Invoke (name provider) args],
              case new_fn F (factory provider) args of
                Throw e \<Rightarrow> Rejected [e]
              | Return v \<Rightarrow> resolve v)
         | FN \<Rightarrow>
             ([Invoke (name provider) args],
              case apply_fn F (factory provider) args of
                Throw e \<Rightarrow> Rejected [e]
              | Return v \<Rightarrow> resolve v))"

text \<open>
  The continuation \<open>Promise.all(childPromises).then(...)\<close> of \<open>_build\<close>: the events are
  those of the callbacks that run.
\<close>

definition fanIn ::
  "fns \<Rightarrow> Provider \<Rightarrow> (string \<rightharpoonup> val) outcome list \<Rightarrow> event list \<times> (string \<rightharpoonup> val) outcome" where
  "fanIn F provider childPromises =
     (case Promise_all childPromises of
        Rejected es \<Rightarrow> ([], Rejected es)
      | Pending \<Rightarrow> ([], Pending)
      | Fulfilled depResults \<Rightarrow>
          (let results = merge depResults;
               (ev, built) = private_buildProvider F provider results
           in case built of
                Rejected es \<Rightarrow> (ev, Rejected es)
              | Pending \<Rightarrow> (ev, Pending)
              | Fulfilled result \<Rightarrow>
                  (ev @ (if isCacheable provider then [CacheSet (name provider) result] else []),
                   Fulfilled (results(name provider \<mapsto> result)))))"

text \<open>
  What an expression evaluates to: it throws, it is a value that is not a promise, or it
  is a promise with its outcome.
\<close>

datatype 'a ret = Threw val | Value val | Promise "'a outcome"

text \<open>
  \<open>_build(depProvider).catch(...)\<close> in the callback of \<open>dependencies.map\<close>.  An exception
  of \<open>_build\<close> leaves the callback; a value that is not a promise has no \<open>catch\<close> to call;
  the handler of a promise rethrows the reason after the \<open>push\<close>.
\<close>

definition catch_parent :: "string \<Rightarrow> 'a ret \<Rightarrow> val + 'a outcome" where
  "catch_parent n r =
     (case r of
        Threw e \<Rightarrow> Inl e
      | Value v \<Rightarrow> Inl (TypeError ''_build(...).catch is not a function'')
      | Promise out \<Rightarrow>
          Inr (case out of Rejected es \<Rightarrow> Rejected (map (parents_push n) es) | _ \<Rightarrow> out))"

text \<open>
  \<open>ds.map(f)\<close> for a callback that may throw or not return: the elements are visited from
  left to right, the first exception ends the traversal, and the events of the calls
  made so far stay.
\<close>

fun mapDeps ::
  "('d \<Rightarrow> (event list \<times> (val + 'a)) option) \<Rightarrow> 'd list
     \<Rightarrow> (event list \<times> (val + 'a list)) option" where
  "mapDeps f [] = Some ([], Inr [])"
| "mapDeps f (d # ds) =
     Option.bind (f d) (\<lambda>(ev, r). case r of
        Inl e \<Rightarrow> Some (ev, Inl e)
      | Inr x \<Rightarrow>
          Option.bind (mapDeps f ds)
            (\<lambda>(ev', r'). Some (ev @ ev', case r' of Inl e \<Rightarrow> Inl e | Inr xs \<Rightarrow> Inr (x # xs))))"

lemma mapDeps_mono [partial_function_mono]:
  assumes "\<And>d. mono_option (\<lambda>f. B f d)"
  shows "mono_option (\<lambda>f. mapDeps (B f) ds)"
proof (induction ds)
  case Nil
  show ?case by (simp add: option.const_mono)
next
  case (Cons d ds)
  have step: "mono_option (\<lambda>f. case r of
        Inl e \<Rightarrow> Some (ev, Inl e)
      | Inr x \<Rightarrow>
          Option.bind (mapDeps (B f) ds)
            (\<lambda>(ev', r'). Some (ev @ ev', case r' of Inl e \<Rightarrow> Inl e | Inr xs \<Rightarrow> Inr (x # xs))))"
    for ev :: "event list" and r
  proof (cases r)
    case (Inl e)
    then show ?thesis by (simp add: option.const_mono)
  next
    case (Inr x)
    then show ?thesis by simp (intro partial_function_mono Cons)
  qed
  show ?case
    unfolding mapDeps.simps
    by (rule bind_mono [OF assms]) (clarsimp, rule step)
qed

text \<open>
  The callback of \<open>provider.dependencies.map\<close> in \<open>_build\<close>, with the recursive call as
  \<open>rec\<close>.  The class body is strict code and \<open>parents\<close> has a getter only, so for a
  dependency without a provider the assignment \<open>err.parents = [provider.name]\<close> throws a
  \<open>TypeError\<close>, and the \<open>Promise.reject(err)\<close> after it is not reached.
\<close>

definition depCallback ::
  "(Provider \<Rightarrow> (event list \<times> 'a ret) option) \<Rightarrow> Injector \<Rightarrow> Provider \<Rightarrow> dep
     \<Rightarrow> (event list \<times> (val + 'a outcome)) option" where
  "depCallback rec this provider depName =
     (case lookup (inj_providers this) depName of
        None \<Rightarrow> Some ([], Inl (TypeError ''Cannot set property parents which has only a getter''))
      | Some depProvider \<Rightarrow>
          Option.bind (rec depProvider) (\<lambda>(ev, r). Some (ev, catch_parent (name provider) r)))"

lemma depCallback_mono [partial_function_mono]:
  assumes "\<And>p. mono_option (\<lambda>f. R f p)"
  shows "mono_option (\<lambda>f. depCallback (R f) this provider d)"
proof (cases "lookup (inj_providers this) d")
  case None
  then show ?thesis by (simp add: depCallback_def option.const_mono)
next
  case (Some depProvider)
  then show ?thesis
    by (simp add: depCallback_def) (intro bind_mono assms option.const_mono)
qed

text \<open>
  What \<open>_build\<close> returns after the traversal: the exception of a callback goes on to the
  caller, and otherwise the promise of \<open>Promise.all(childPromises).then(...)\<close>.
\<close>

definition finish ::
  "fns \<Rightarrow> Provider \<Rightarrow> event list \<Rightarrow> val + (string \<rightharpoonup> val) outcome list
     \<Rightarrow> event list \<times> (string \<rightharpoonup> val) ret" where
  "finish F provider ev r =
     (case r of
        Inl e \<Rightarrow> (ev, Threw e)
      | Inr childPromises \<Rightarrow>
          (let (ev', out) = fanIn F provider childPromises in (ev @ ev', Promise out)))"

text \<open>
  \<open>_build\<close>.  The whole recursion runs synchronously inside \<open>build\<close>, before any promise
  callback: it reads the cache as it is when \<open>build\<close> is called.  The result is \<open>None\<close>
  when the recursion does not end.
\<close>

partial_function (option) private_build ::
  "fns \<Rightarrow> Injector \<Rightarrow> Provider \<Rightarrow> (event list \<times> (string \<rightharpoonup> val) ret) option" where
  "private_build F this provider =
     (case inj_cache this (name provider) of
        Some v \<Rightarrow> Some ([], Value v)
      | None \<Rightarrow>
          Option.bind
            (mapDeps
               (depCallback (\<lambda>depProvider. private_build F this depProvider) this provider)
               (dependencies provider))
            (\<lambda>(ev, r). Some (finish F provider ev r)))"

declare private_build.simps [code]

text \<open>
  The handler of \<open>build\<close>: a \<open>ProviderNotFound\<close> is replaced by an \<open>Error\<close> whose message
  ends with the chain, the names joined by an arrow (U+2192, three bytes in UTF-8).
\<close>

definition arrow :: string where
  "arrow = [CHR '' '', CHR 0xE2, CHR 0x86, CHR 0x92, CHR '' '']"

definition rethrow_chain :: "string \<Rightarrow> val \<Rightarrow> val" where
  "rethrow_chain n err =
     (case err of
        ProviderNotFound msg ps \<Rightarrow>
          Error (msg @ ''(in dependency chain: '' @ join arrow (parents (parents_push n err)) @ '')'')
      | _ \<Rightarrow> err)"

fun apply_event :: "event \<Rightarrow> (string \<rightharpoonup> val) \<Rightarrow> (string \<rightharpoonup> val)" where
  "apply_event (CacheSet n v) c = c(n \<mapsto> v)"
| "apply_event (Invoke n args) c = c"

text \<open>
  \<open>build\<close>.  A call is followed until nothing of it is left to run: the Injector returned
  has the cache after every callback of the call, also of the branches that outlive a
  rejection or an exception of the call; the events are those of the call.
\<close>

definition Injector_build ::
  "fns \<Rightarrow> Injector \<Rightarrow> string \<Rightarrow> (Injector \<times> event list \<times> val ret) option" where
  "Injector_build F this n =
     (case inj_providers this n of
        None \<Rightarrow>
          Some (this, [],
                Promise (Rejected [Error (''Provider not found for '' @ [CHR 0x22] @ n @ [CHR 0x22])]))
      | Some provider \<Rightarrow>
          Option.bind (private_build F this provider) (\<lambda>(ev, r).
            Some (this\<lparr>inj_cache := fold apply_event ev (inj_cache this)\<rparr>, ev,
                  case r of
                    Threw e \<Rightarrow> Threw e
                  | Value v \<Rightarrow> Threw (TypeError ''_build(...).then is not a function'')
                  | Promise out \<Rightarrow>
                      Promise (case out of
                          Fulfilled results \<Rightarrow> resolve (get results (Name (name provider)))
                        | Rejected es \<Rightarrow> Rejected (map (rethrow_chain n) es)
                        | Pending \<Rightarrow> Pending))))"

definition Registry_build ::
  "fns \<Rightarrow> Registry \<Rightarrow> string \<Rightarrow> (Injector \<times> event list \<times> val ret) option" where
  "Registry_build F this n = Injector_build F (buildInjector this) n"

section \<open>Registry objects\<close>

text \<open>
  Registries are objects: a store holds their fields, an address is an index of the
  store, and \<open>new Registry(...)\<close> allocates at the next free address.  A registration
  method called on the object at \<open>this\<close> reads that object and, when it returns, returns
  the address of the object it allocated; when it throws, nothing was allocated.
\<close>

type_synonym store = "Registry list"

definition returning :: "store \<Rightarrow> val + Registry \<Rightarrow> store \<times> (val + nat)" where
  "returning \<sigma> res = (case res of Inl e \<Rightarrow> (\<sigma>, Inl e) | Inr r \<Rightarrow> (\<sigma> @ [r], Inr (length \<sigma>)))"

definition ctor_at ::
  "fns \<Rightarrow> store \<Rightarrow> nat \<Rightarrow> string \<Rightarrow> val \<Rightarrow> options_arg \<Rightarrow> store \<times> (val + nat)" where
  "ctor_at F \<sigma> this n Ctor opt_options = returning \<sigma> (Registry_ctor F (\<sigma> ! this) n Ctor opt_options)"

definition constant_at :: "store \<Rightarrow> nat \<Rightarrow> string \<Rightarrow> val \<Rightarrow> store \<times> (val + nat)" where
  "constant_at \<sigma> this n c = returning \<sigma> (Registry_constant (\<sigma> ! this) n c)"

definition fn_at ::
  "fns \<Rightarrow> store \<Rightarrow> nat \<Rightarrow> string \<Rightarrow> val \<Rightarrow> options_arg \<Rightarrow> store \<times> (val + nat)" where
  "fn_at F \<sigma> this n f opt_options = returning \<sigma> (Registry_fn F (\<sigma> ! this) n f opt_options)"

datatype registration =
    Ctor string val options_arg
  | Constant string val
  | Fn string val options_arg

fun register :: "fns \<Rightarrow> store \<Rightarrow> nat \<Rightarrow> registration \<Rightarrow> store \<times> (val + nat)" where
  "register F \<sigma> this (Ctor n f opt_options) = ctor_at F \<sigma> this n f opt_options"
| "register F \<sigma> this (Constant n c) = constant_at \<sigma> this n c"
| "register F \<sigma> this (Fn n f opt_options) = fn_at F \<sigma> this n f opt_options"

fun call_registration :: "fns \<Rightarrow> Registry \<Rightarrow> registration \<Rightarrow> val + Registry" where
  "call_registration F this (Ctor n f opt_options) = Registry_ctor F this n f opt_options"
| "call_registration F this (Constant n c) = Registry_constant this n c"
| "call_registration F this (Fn n f opt_options) = Registry_fn F this n f opt_options"

fun registered_name :: "registration \<Rightarrow> string" where
  "registered_name (Ctor n f opt_options) = n"
| "registered_name (Constant n c) = n"
| "registered_name (Fn n f opt_options) = n"

section \<open>Properties of registries and injectors\<close>

text \<open>The dependency graph of a provider map: an edge from a name to each name it lists.\<close>

definition dependsOn :: "(string \<rightharpoonup> Provider) \<Rightarrow> (string \<times> string) set" where
  "dependsOn ps = {(n, d). \<exists>p. ps n = Some p \<and> Name d \<in> set (dependencies p)}"

text \<open>Every dependency that a provider of the map lists has a provider.\<close>

definition closed :: "(string \<rightharpoonup> Provider) \<Rightarrow> bool" where
  "closed ps = (\<forall>n p x. ps n = Some p \<longrightarrow> x \<in> set (dependencies p) \<longrightarrow> lookup ps x \<noteq> None)"

text \<open>A cycle of the dependency graph can be reached from the name.\<close>

definition cyclic :: "(string \<rightharpoonup> Provider) \<Rightarrow> string \<Rightarrow> bool" where
  "cyclic ps n = (\<exists>c. (n, c) \<in> (dependsOn ps)\<^sup>* \<and> (c, c) \<in> (dependsOn ps)\<^sup>+)"

text \<open>Every provider is stored under its own name, as \<open>_add\<close> stores it.\<close>

definition wf_providers :: "(string \<rightharpoonup> Provider) \<Rightarrow> bool" where
  "wf_providers ps = (\<forall>k p. ps k = Some p \<longrightarrow> name p = k)"

text \<open>The names in the cache are names of cacheable providers.\<close>

definition cache_ok :: "Injector \<Rightarrow> bool" where
  "cache_ok this =
     (\<forall>k. inj_cache this k \<noteq> None \<longrightarrow> (\<exists>p. inj_providers this k = Some p \<and> isCacheable p))"

text \<open>
  An event of a call on the Injector \<open>this\<close> is justified when it is an invocation, or it
  caches, under a name the cache did not hold, the value with which the construction
  of the cacheable provider of that name was fulfilled.
\<close>

definition justified :: "fns \<Rightarrow> Injector \<Rightarrow> event \<Rightarrow> bool" where
  "justified F this e =
     (case e of
        Invoke k args \<Rightarrow> True
      | CacheSet k v \<Rightarrow>
          inj_cache this k = None
          \<and> (\<exists>p results ev. inj_providers this k = Some p \<and> isCacheable p
                \<and> private_buildProvider F p results = (ev, Fulfilled v)))"

fun isCacheSet :: "event \<Rightarrow> bool" where
  "isCacheSet (CacheSet k v) = True"
| "isCacheSet (Invoke k args) = False"

text \<open>A provider as \<open>constant\<close> registers it, for a value that is not a thenable.\<close>

definition isConstant :: "Provider \<Rightarrow> bool" where
  "isConstant p =
     (type p = CONSTANT \<and> dependencies p = [] \<and> \<not> isCacheable p \<and> \<not> isThenable (factory p))"

text \<open>How the promise of a factory's result ends: \<open>new\<close> for a \<open>CTOR\<close>, a call for a \<open>FN\<close>.\<close>

definition invoke :: "fns \<Rightarrow> ProviderType \<Rightarrow> val \<Rightarrow> val list \<Rightarrow> val outcome" where
  "invoke F t f args =
     (case (if t = CTOR then new_fn F f args else apply_fn F f args) of
        Throw e \<Rightarrow> Rejected [e]
      | Return v \<Rightarrow> resolve v)"

text \<open>
  The value \<open>v\<close> is what \<open>_build\<close> of the provider of the name \<open>k\<close>, called on the Injector
  \<open>this\<close>, puts under \<open>k\<close> in the results map its promise is fulfilled with.
\<close>

definition built :: "fns \<Rightarrow> Injector \<Rightarrow> string \<Rightarrow> val \<Rightarrow> bool" where
  "built F this k v =
     (\<exists>q ev m. inj_providers this k = Some q
        \<and> private_build F this q = Some (ev, Promise (Fulfilled m))
        \<and> m k = Some v \<and> \<not> isThenable v)"

text \<open>
  A result of \<open>_build\<close> is sound when every value it caches, and every entry of the
  results map it is fulfilled with, is a value built in the above sense.
\<close>

definition sound :: "fns \<Rightarrow> Injector \<Rightarrow> event list \<times> (string \<rightharpoonup> val) ret \<Rightarrow> bool" where
  "sound F this y =
     ((\<forall>k v. CacheSet k v \<in> set (fst y) \<longrightarrow> built F this k v)
      \<and> (\<forall>m k v. snd y = Promise (Fulfilled m) \<longrightarrow> m k = Some v \<longrightarrow> built F this k v))"


section \<open>Examples\<close>

text \<open>
  The functions of the examples.  \<open>0\<close> names the port it is given when it is 8080; \<open>1\<close> to
  \<open>3\<close> carry their dependency names in \<open>$ij\<close> and return an object; \<open>4\<close> to \<open>7\<close>
  declare one parameter and return it; every other one has no parameters and returns
  \<open>undefined\<close>.
\<close>

definition example_fns :: fns where
  "example_fns k =
     (if k = 0 then
        \<lparr>ij = None,
         toString = ''(port) => port === 8080 ? `listening on 8080` : `listening on ?`'',
         call = (\<lambda>args. Return (Str (if take 1 args = [Num 8080] then ''listening on 8080''
                                       else ''listening on ?''))),
         construct = (\<lambda>args. Throw (TypeError ''not a constructor''))\<rparr>
      else if k = 1 then
        \<lparr>ij = Some [''b'', ''c''], toString = ''function (x, y) { return {} }'',
         call = (\<lambda>args. Return (Obj 1)), construct = (\<lambda>args. Return (Obj 1))\<rparr>
      else if k = 2 then
        \<lparr>ij = Some [''d''], toString = ''function (x) { return {} }'',
         call = (\<lambda>args. Return (Obj 2)), construct = (\<lambda>args. Return (Obj 2))\<rparr>
      else if k = 3 then
        \<lparr>ij = Some [], toString = ''function () { return {} }'',
         call = (\<lambda>args. Return (Obj 3)), construct = (\<lambda>args. Return (Obj 3))\<rparr>
      else if k = 4 then
        \<lparr>ij = None, toString = ''function (b) { return b }'',
         call = (\<lambda>args. Return (case args of [] \<Rightarrow> Undefined | v # vs \<Rightarrow> v)),
         construct = (\<lambda>args. Return (Obj 4))\<rparr>
      else if k = 5 then
        \<lparr>ij = None, toString = ''function (a) { return a }'',
         call = (\<lambda>args. Return (case args of [] \<Rightarrow> Undefined | v # vs \<Rightarrow> v)),
         construct = (\<lambda>args. Return (Obj 5))\<rparr>
      else if k = 6 then
        \<lparr>ij = None, toString = ''function (db) { return db }'',
         call = (\<lambda>args. Return (case args of [] \<Rightarrow> Undefined | v # vs \<Rightarrow> v)),
         construct = (\<lambda>args. Return (Obj 6))\<rparr>
      else if k = 7 then
        \<lparr>ij = None, toString = ''function (toString) { return toString }'',
         call = (\<lambda>args. Return (case args of [] \<Rightarrow> Undefined | v # vs \<Rightarrow> v)),
         construct = (\<lambda>args. Return (Obj 7))\<rparr>
      else
        \<lparr>ij = None, toString = ''function () {}'',
         call = (\<lambda>args. Return Undefined), construct = (\<lambda>args. Return (Obj 0))\<rparr>)"

definition empty_Registry :: Registry where
  "empty_Registry = new_Registry None"

definition constant_Provider :: "string \<Rightarrow> val \<Rightarrow> Provider" where
  "constant_Provider n c =
     \<lparr>name = n, type = CONSTANT, factory = c, dependencies = [], isCacheable = False\<rparr>"

definition fn_Provider :: "string \<Rightarrow> nat \<Rightarrow> string list \<Rightarrow> bool \<Rightarrow> Provider" where
  "fn_Provider n g ds c =
     \<lparr>name = n, type = FN, factory = Fun g, dependencies = map Name ds, isCacheable = c\<rparr>"

definition cacheable :: options where
  "cacheable = \<lparr>opt_using = None, opt_isCacheable = True, opt_override = False\<rparr>"

text \<open>The scenario of the specification: a port and a cacheable greeting that needs it.\<close>

definition port_Registry :: Registry where
  "port_Registry = \<lparr>reg_providers = [''port'' \<mapsto> constant_Provider ''port'' (Num 8080)]\<rparr>"

definition greeting_Registry :: Registry where
  "greeting_Registry =
     \<lparr>reg_providers = [''port'' \<mapsto> constant_Provider ''port'' (Num 8080),
                       ''greeting'' \<mapsto> fn_Provider ''greeting'' 0 [''port''] True]\<rparr>"

definition greeting_Injector :: Injector where
  "greeting_Injector =
     \<lparr>inj_providers = reg_providers greeting_Registry,
      inj_cache = [''greeting'' \<mapsto> Str ''listening on 8080'']\<rparr>"

text \<open>A diamond: \<open>a\<close> needs \<open>b\<close> and \<open>c\<close>, which both need \<open>d\<close>; \<open>d\<close> is cacheable or not.\<close>

definition diamond_Registry :: "bool \<Rightarrow> Registry" where
  "diamond_Registry c =
     \<lparr>reg_providers = [''d'' \<mapsto> fn_Provider ''d'' 3 [] c,
                       ''b'' \<mapsto> fn_Provider ''b'' 2 [''d''] False,
                       ''c'' \<mapsto> fn_Provider ''c'' 2 [''d''] False,
                       ''a'' \<mapsto> fn_Provider ''a'' 1 [''b'', ''c''] False]\<rparr>"

text \<open>\<open>a\<close> needs \<open>b\<close>, which has no provider; and the cycle of \<open>a\<close> and \<open>b\<close>.\<close>

definition dangling_Registry :: Registry where
  "dangling_Registry = \<lparr>reg_providers = [''a'' \<mapsto> fn_Provider ''a'' 4 [''b''] False]\<rparr>"

definition cycle_Registry :: Registry where
  "cycle_Registry =
     \<lparr>reg_providers = [''a'' \<mapsto> fn_Provider ''a'' 4 [''b''] False,
                       ''b'' \<mapsto> fn_Provider ''b'' 5 [''a''] False]\<rparr>"

text \<open>A constant registered twice, a constant that is a promise, and \<open>using\<close>.\<close>

definition x1_Registry :: Registry where
  "x1_Registry = \<lparr>reg_providers = [''x'' \<mapsto> constant_Provider ''x'' (Num 1)]\<rparr>"

definition x2_Registry :: Registry where
  "x2_Registry = \<lparr>reg_providers = [''x'' \<mapsto> constant_Provider ''x'' (Num 2)]\<rparr>"

definition x3_Registry :: Registry where
  "x3_Registry = \<lparr>reg_providers = [''x'' \<mapsto> fn_Provider ''x'' 3 [] False]\<rparr>"

definition promise_Registry :: Registry where
  "promise_Registry =
     \<lparr>reg_providers = [''p'' \<mapsto> constant_Provider ''p'' (Thenable (Fulfils (Num 5)))]\<rparr>"








section \<open>Evaluation and auxiliary facts\<close>

lemmas registry_defs =
  Registry_ctor_def Registry_fn_def Registry_constant_def private_add_def new_Registry_def
  assert_def no_options_def mapDep_def objectPrototype_def empty_Registry_def constant_Provider_def
  fn_Provider_def

lemmas build_defs =
  Injector_build_def Registry_build_def buildInjector_def new_Injector_def private_build.simps
  depCallback_def finish_def fanIn_def Promise_all_def merge_def private_buildProvider_def
  apply_fn_def new_fn_def catch_parent_def get_def constant_Provider_def fn_Provider_def

lemma getDependencyNames_0: "getDependencyNames (example_fns 0) = [''port'']"
  by (simp add: example_fns_def) code_simp

lemma getDependencyNames_4: "getDependencyNames (example_fns 4) = [''b'']"
  by (simp add: example_fns_def) code_simp

lemma getDependencyNames_5: "getDependencyNames (example_fns 5) = [''a'']"
  by (simp add: example_fns_def) code_simp



lemma getDependencyNames_ij:
  "getDependencyNames (example_fns 1) = [''b'', ''c'']"
  "getDependencyNames (example_fns 2) = [''d'']"
  "getDependencyNames (example_fns 3) = []"
  by (simp_all add: example_fns_def getDependencyNames_def)

lemma resolve_plain: "\<not> isThenable v \<Longrightarrow> resolve v = Fulfilled v"
  by (cases v) auto

lemma resolve_Fulfilled_plain:
  "resolve v = Fulfilled w \<Longrightarrow> \<not> isThenable w"
  "settled s = Fulfilled w \<Longrightarrow> \<not> isThenable w"
  by (induction v and s rule: resolve_settled.induct) auto

lemma lookup_Some: "lookup m d = Some x \<longleftrightarrow> (\<exists>k. d = Name k \<and> m k = Some x)"
  by (cases d) auto

lemma private_add_Options:
  "private_add r n t f ds (Options opts) =
     Inr \<lparr>reg_providers = (reg_providers r)(n \<mapsto>
            \<lparr>name = n, type = t, factory = f,
             dependencies = (case opt_using opts of None \<Rightarrow> map Name ds
                             | Some u \<Rightarrow> map (mapDep u) ds),
             isCacheable = opt_isCacheable opts\<rparr>)\<rparr>"
  by (simp add: private_add_def new_Registry_def)

lemma private_add_Omitted:
  "private_add r n t f ds Omitted =
     Inr \<lparr>reg_providers = (reg_providers r)(n \<mapsto>
            \<lparr>name = n, type = t, factory = f, dependencies = map Name ds,
             isCacheable = False\<rparr>)\<rparr>"
  by (simp add: private_add_def new_Registry_def no_options_def)

lemma private_add_NullOptions:
  "private_add r n t f ds NullOptions = Inl (TypeError ''Cannot read property using of null'')"
  by (simp add: private_add_def)

lemma private_add_Inr:
  assumes "private_add r n t f ds opts = Inr r'"
  shows "\<exists>p. name p = n \<and> type p = t \<and> factory p = f
           \<and> reg_providers r' = (reg_providers r)(n \<mapsto> p)"
proof (cases opts)
  case Omitted
  with assms have "reg_providers r' = (reg_providers r)(n \<mapsto>
            \<lparr>name = n, type = t, factory = f, dependencies = map Name ds,
             isCacheable = False\<rparr>)"
    by (auto simp: private_add_Omitted)
  then show ?thesis
    by (intro exI [of _ "\<lparr>name = n, type = t, factory = f, dependencies = map Name ds,
             isCacheable = False\<rparr>"]) simp
next
  case NullOptions
  with assms show ?thesis by (simp add: private_add_NullOptions)
next
  case (Options given)
  with assms have "reg_providers r' = (reg_providers r)(n \<mapsto>
            \<lparr>name = n, type = t, factory = f,
             dependencies = (case opt_using given of None \<Rightarrow> map Name ds
                             | Some u \<Rightarrow> map (mapDep u) ds),
             isCacheable = opt_isCacheable given\<rparr>)"
    by (auto simp: private_add_Options)
  then show ?thesis
    by (intro exI [of _ "\<lparr>name = n, type = t, factory = f,
             dependencies = (case opt_using given of None \<Rightarrow> map Name ds
                             | Some u \<Rightarrow> map (mapDep u) ds),
             isCacheable = opt_isCacheable given\<rparr>"]) simp
qed

lemma wf_providers_add:
  assumes "wf_providers (reg_providers r)" and "private_add r n t f ds opts = Inr r'"
  shows "wf_providers (reg_providers r')"
proof -
  from private_add_Inr [OF assms(2)] obtain p
    where "name p = n" "reg_providers r' = (reg_providers r)(n \<mapsto> p)" by auto
  with assms(1) show ?thesis by (auto simp: wf_providers_def)
qed

lemma cyclic_step:
  assumes "cyclic ps n"
  shows "\<exists>d. (n, d) \<in> dependsOn ps \<and> cyclic ps d"
proof -
  from assms obtain c where nc: "(n, c) \<in> (dependsOn ps)\<^sup>*" and cc: "(c, c) \<in> (dependsOn ps)\<^sup>+"
    by (auto simp: cyclic_def)
  from nc show ?thesis
  proof (cases rule: converse_rtranclE)
    case base
    from cc obtain d where "(c, d) \<in> dependsOn ps" "(d, c) \<in> (dependsOn ps)\<^sup>*"
      by (auto dest: tranclD)
    with base cc show ?thesis by (auto simp: cyclic_def)
  next
    case (step d)
    with cc show ?thesis by (auto simp: cyclic_def)
  qed
qed

lemma mapDeps_all_promises:
  assumes "mapDeps g ds = Some (ev, r)"
    and "\<And>d ev' r'. d \<in> set ds \<Longrightarrow> g d = Some (ev', r') \<Longrightarrow> \<exists>x. r' = Inr x"
  shows "(\<exists>xs. r = Inr xs) \<and> (\<forall>d\<in>set ds. g d \<noteq> None)"
  using assms
proof (induction ds arbitrary: ev r)
  case Nil
  then show ?case by auto
next
  case (Cons d ds)
  from Cons.prems(1) obtain ev1 r1 where g: "g d = Some (ev1, r1)"
    by (cases "g d") auto
  with Cons.prems(2) obtain x where r1: "r1 = Inr x" by force
  from Cons.prems(1) g r1 obtain ev2 r2 where rest: "mapDeps g ds = Some (ev2, r2)"
    and r: "r = (case r2 of Inl e \<Rightarrow> Inl e | Inr xs \<Rightarrow> Inr (x # xs))"
    by (cases "mapDeps g ds") auto
  have "(\<exists>xs. r2 = Inr xs) \<and> (\<forall>d\<in>set ds. g d \<noteq> None)"
    by (rule Cons.IH [OF rest]) (rule Cons.prems(2), simp_all)
  with g r show ?case by auto
qed

lemma mapDeps_events:
  assumes "mapDeps g ds = Some (ev, r)" and "e \<in> set ev"
  shows "\<exists>d\<in>set ds. \<exists>ev' r'. g d = Some (ev', r') \<and> e \<in> set ev'"
  using assms
proof (induction ds arbitrary: ev r)
  case Nil
  then show ?case by auto
next
  case (Cons d ds)
  from Cons.prems(1) obtain ev1 r1 where g: "g d = Some (ev1, r1)"
    by (cases "g d") auto
  show ?case
  proof (cases r1)
    case (Inl x)
    with Cons.prems g show ?thesis by auto
  next
    case (Inr x)
    with Cons.prems(1) g obtain ev2 r2 where rest: "mapDeps g ds = Some (ev2, r2)"
      and ev: "ev = ev1 @ ev2"
      by (cases "mapDeps g ds") auto
    from Cons.prems(2) ev consider "e \<in> set ev1" | "e \<in> set ev2" by auto
    then show ?thesis
    proof cases
      case 1
      with g show ?thesis by auto
    next
      case 2
      from Cons.IH [OF rest 2] show ?thesis by auto
    qed
  qed
qed

text \<open>
  In a closed map and with an empty cache, a call of \<open>_build\<close> that returns returns a
  promise, and no cycle can be reached from its provider.
\<close>

lemma private_build_acyclic:
  assumes "private_build F this provider = Some y"
  shows "closed (inj_providers this) \<longrightarrow> inj_cache this = Map.empty \<longrightarrow>
           (\<forall>n. inj_providers this n = Some provider \<longrightarrow>
              (\<exists>ev out. y = (ev, Promise out)) \<and> \<not> cyclic (inj_providers this) n)"
  using assms
proof (induction rule: private_build.raw_induct [rotated 1, consumes 1])
  case (1 build F this provider y)
  show ?case
  proof (intro impI allI)
    fix n
    assume cl: "closed (inj_providers this)" and em: "inj_cache this = Map.empty"
      and n: "inj_providers this n = Some provider"
    from 1(2) em obtain ev r
      where m: "mapDeps (depCallback (build F this) this provider) (dependencies provider) = Some (ev, r)"
        and y: "y = finish F provider ev r"
      by (auto split: Option.bind_splits)
    have reg: "\<exists>k dp. d = Name k \<and> inj_providers this k = Some dp"
      if "d \<in> set (dependencies provider)" for d
    proof -
      from cl n that have "lookup (inj_providers this) d \<noteq> None" by (auto simp: closed_def)
      then show ?thesis by (auto simp: lookup_Some)
    qed
    have child: "\<exists>x. r' = Inr x"
      if d: "d \<in> set (dependencies provider)"
        and g: "depCallback (build F this) this provider d = Some (ev', r')" for d ev' r'
    proof -
      from reg [OF d] obtain k dp where k: "d = Name k" and dp: "inj_providers this k = Some dp"
        by auto
      with g obtain ev1 r1 where b: "build F this dp = Some (ev1, r1)"
        and r': "r' = catch_parent (name provider) r1"
        by (auto simp: depCallback_def split: Option.bind_splits)
      from 1(1) [OF b] cl em dp obtain out where "r1 = Promise out" by auto
      with r' show ?thesis by (simp add: catch_parent_def)
    qed
    have "(\<exists>xs. r = Inr xs)
        \<and> (\<forall>d\<in>set (dependencies provider). depCallback (build F this) this provider d \<noteq> None)"
      by (rule mapDeps_all_promises [OF m]) (rule child)
    then obtain xs where r: "r = Inr xs"
      and all: "\<forall>d\<in>set (dependencies provider). depCallback (build F this) this provider d \<noteq> None"
      by auto
    have "\<not> cyclic (inj_providers this) n"
    proof
      assume "cyclic (inj_providers this) n"
      from cyclic_step [OF this] obtain d
        where e: "(n, d) \<in> dependsOn (inj_providers this)" and c: "cyclic (inj_providers this) d"
        by auto
      from e n have d: "Name d \<in> set (dependencies provider)" by (auto simp: dependsOn_def)
      from reg [OF d] obtain dp where dp: "inj_providers this d = Some dp" by auto
      from all d have "depCallback (build F this) this provider (Name d) \<noteq> None" by blast
      with dp obtain z where b: "build F this dp = Some z"
        by (cases "build F this dp") (auto simp: depCallback_def)
      from 1(1) [OF b] cl em dp c show False by auto
    qed
    moreover from y r have "\<exists>ev out. y = (ev, Promise out)"
      by (auto simp: finish_def split: prod.splits)
    ultimately show "(\<exists>ev out. y = (ev, Promise out)) \<and> \<not> cyclic (inj_providers this) n" by simp
  qed
qed

lemma cyclic_diverges:
  assumes "closed (inj_providers this)" and "inj_cache this = Map.empty"
    and "inj_providers this n = Some provider" and "cyclic (inj_providers this) n"
  shows "private_build F this provider = None"
proof (cases "private_build F this provider")
  case None
  then show ?thesis .
next
  case (Some y)
  from private_build_acyclic [OF Some] assms show ?thesis by auto
qed

lemma cyclic_build_diverges:
  assumes "closed (reg_providers r)" and "cyclic (reg_providers r) n"
  shows "Injector_build F (buildInjector r) n = None"
proof -
  from cyclic_step [OF assms(2)] obtain p where p: "reg_providers r n = Some p"
    by (auto simp: dependsOn_def)
  have "private_build F (buildInjector r) p = None"
    by (rule cyclic_diverges [where n = n])
       (use assms p in \<open>simp_all add: buildInjector_def new_Injector_def\<close>)
  with p show ?thesis by (simp add: Injector_build_def buildInjector_def new_Injector_def)
qed

lemma buildProvider_events:
  "e \<in> set (fst (private_buildProvider F p results)) \<Longrightarrow> \<exists>k args. e = Invoke k args"
  by (auto simp: private_buildProvider_def Let_def split: ProviderType.splits)

lemma fanIn_events:
  assumes "e \<in> set (fst (fanIn F p cps))"
    and "inj_cache this (name p) = None" and "inj_providers this (name p) = Some p"
  shows "justified F this e"
proof (cases "Promise_all cps")
  case (Fulfilled depResults)
  obtain ev built where b: "private_buildProvider F p (merge depResults) = (ev, built)"
    by (cases "private_buildProvider F p (merge depResults)")
  show ?thesis
  proof (cases "e \<in> set ev")
    case True
    with buildProvider_events [of e F p "merge depResults"] b show ?thesis
      by (auto simp: justified_def)
  next
    case False
    with assms Fulfilled b show ?thesis
      by (cases built) (auto simp: fanIn_def justified_def split: if_splits)
  qed
next
  case (Rejected es)
  with assms show ?thesis by (simp add: fanIn_def)
next
  case Pending
  with assms show ?thesis by (simp add: fanIn_def)
qed

lemma fanIn_failed_no_CacheSet:
  assumes "\<forall>m. snd (fanIn F p cps) \<noteq> Fulfilled m"
  shows "\<not> list_ex isCacheSet (fst (fanIn F p cps))"
proof (cases "Promise_all cps")
  case (Fulfilled depResults)
  obtain ev built where b: "private_buildProvider F p (merge depResults) = (ev, built)"
    by (cases "private_buildProvider F p (merge depResults)")
  have "\<not> isCacheSet e" if "e \<in> set ev" for e
    using buildProvider_events [of e F p "merge depResults"] b that by auto
  with assms Fulfilled b show ?thesis
    by (cases built) (auto simp: fanIn_def list_ex_iff)
next
  case (Rejected es)
  then show ?thesis by (simp add: fanIn_def)
next
  case Pending
  then show ?thesis by (simp add: fanIn_def)
qed

text \<open>Every event of a call of \<open>_build\<close> is justified.\<close>

lemma private_build_events:
  assumes "private_build F this provider = Some y"
  shows "wf_providers (inj_providers this) \<longrightarrow> (\<exists>k. inj_providers this k = Some provider) \<longrightarrow>
           (\<forall>e\<in>set (fst y). justified F this e)"
  using assms
proof (induction rule: private_build.raw_induct [rotated 1, consumes 1])
  case (1 build F this provider y)
  show ?case
  proof (intro impI ballI)
    fix e
    assume wf: "wf_providers (inj_providers this)"
      and reg: "\<exists>k. inj_providers this k = Some provider"
      and e: "e \<in> set (fst y)"
    from reg wf have self: "inj_providers this (name provider) = Some provider"
      by (auto simp: wf_providers_def)
    show "justified F this e"
    proof (cases "inj_cache this (name provider)")
      case (Some v)
      with 1(2) e show ?thesis by auto
    next
      case None
      with 1(2) obtain ev r
        where m: "mapDeps (depCallback (build F this) this provider) (dependencies provider) = Some (ev, r)"
          and y: "y = finish F provider ev r"
        by (auto split: Option.bind_splits)
      have children: "justified F this e" if "e \<in> set ev"
      proof -
        from mapDeps_events [OF m that] obtain d ev' r'
          where g: "depCallback (build F this) this provider d = Some (ev', r')" and e': "e \<in> set ev'"
          by auto
        show ?thesis
        proof (cases "lookup (inj_providers this) d")
          case None
          with g e' show ?thesis by (simp add: depCallback_def)
        next
          case (Some dp)
          with g obtain r1 where b: "build F this dp = Some (ev', r1)"
            by (auto simp: depCallback_def split: Option.bind_splits)
          from Some have "\<exists>k. inj_providers this k = Some dp" by (auto simp: lookup_Some)
          with 1(1) [OF b] wf e' show ?thesis by auto
        qed
      qed
      show ?thesis
      proof (cases r)
        case (Inl x)
        with y e children show ?thesis by (simp add: finish_def)
      next
        case (Inr cps)
        with y e have "e \<in> set ev \<or> e \<in> set (fst (fanIn F provider cps))"
          by (auto simp: finish_def split: prod.splits)
        with children fanIn_events [OF _ None self] show ?thesis by blast
      qed
    qed
  qed
qed

lemma fold_apply_event_Some:
  "fold apply_event ev c k = Some v \<Longrightarrow> c k = Some v \<or> CacheSet k v \<in> set ev"
proof (induction ev arbitrary: c)
  case Nil
  then show ?case by simp
next
  case (Cons e ev)
  from Cons.IH [of "apply_event e c"] Cons.prems
  have "apply_event e c k = Some v \<or> CacheSet k v \<in> set ev" by simp
  then show ?case by (cases e) (auto split: if_splits)
qed

lemma fold_apply_event_keep:
  "\<forall>v. CacheSet k v \<notin> set ev \<Longrightarrow> fold apply_event ev c k = c k"
proof (induction ev arbitrary: c)
  case Nil
  then show ?case by simp
next
  case (Cons e ev)
  then have "fold apply_event ev (apply_event e c) k = apply_event e c k" by simp
  with Cons.prems show ?case by (cases e) auto
qed

lemma private_build_constant:
  assumes "isConstant p" and "inj_cache this (name p) = None"
  shows "private_build F this p = Some ([], Promise (Fulfilled [name p \<mapsto> factory p]))"
  using assms
  by (subst private_build.simps)
     (simp add: isConstant_def finish_def fanIn_def Promise_all_def merge_def
        private_buildProvider_def resolve_plain)

lemma Promise_all_Fulfilled: "Promise_all (map (\<lambda>d. Fulfilled (h d)) ds) = Fulfilled (map h ds)"
proof -
  have 1: "\<not> list_ex isRejected (map (\<lambda>d. Fulfilled (h d)) ds)"
    by (induction ds) auto
  have 2: "fulfilments (map (\<lambda>d. Fulfilled (h d)) ds) = Some (map h ds)"
    by (induction ds) auto
  from 1 2 show ?thesis by (simp add: Promise_all_def)
qed

text \<open>
  What \<open>_build\<close> caches and returns is what the calls of \<open>_build\<close> for the providers
  concerned return: the results maps of the dependencies agree wherever they overlap.
\<close>

lemma mapDeps_le:
  assumes "mapDeps g ds = Some r"
    and "\<And>d y. d \<in> set ds \<Longrightarrow> g d = Some y \<Longrightarrow> g' d = Some y"
  shows "mapDeps g' ds = Some r"
  using assms
proof (induction ds arbitrary: r)
  case Nil
  then show ?case by simp
next
  case (Cons d ds)
  from Cons.prems(1) obtain ev1 r1 where g: "g d = Some (ev1, r1)"
    by (cases "g d") auto
  with Cons.prems(2) have g': "g' d = Some (ev1, r1)" by simp
  show ?case
  proof (cases r1)
    case (Inl e)
    with Cons.prems(1) g g' show ?thesis by simp
  next
    case (Inr x)
    with Cons.prems(1) g obtain z where rest: "mapDeps g ds = Some z"
      by (cases "mapDeps g ds") auto
    have "mapDeps g' ds = Some z"
      by (rule Cons.IH [OF rest]) (rule Cons.prems(2), simp_all)
    with Cons.prems(1) g g' Inr rest show ?thesis by simp
  qed
qed

lemma depCallback_le:
  assumes "depCallback rec this p d = Some y"
    and "\<And>q z. rec q = Some z \<Longrightarrow> rec' q = Some z"
  shows "depCallback rec' this p d = Some y"
proof (cases "lookup (inj_providers this) d")
  case None
  with assms(1) show ?thesis by (simp add: depCallback_def)
next
  case (Some q)
  with assms(1) obtain z where "rec q = Some z" by (cases "rec q") (auto simp: depCallback_def)
  with assms Some show ?thesis by (simp add: depCallback_def)
qed

lemma mapDeps_results:
  assumes "mapDeps g ds = Some (ev, Inr xs)"
  shows "list_all2 (\<lambda>d x. \<exists>ev'. g d = Some (ev', Inr x)) ds xs"
  using assms
proof (induction ds arbitrary: ev xs)
  case Nil
  then show ?case by simp
next
  case (Cons d ds)
  from Cons.prems obtain ev1 r1 where g: "g d = Some (ev1, r1)"
    by (cases "g d") auto
  with Cons.prems obtain x where r1: "r1 = Inr x" by (cases r1) auto
  from Cons.prems g r1 obtain ev2 r2 where rest: "mapDeps g ds = Some (ev2, r2)"
    and r: "Inr xs = (case r2 of Inl e \<Rightarrow> Inl e | Inr ys \<Rightarrow> Inr (x # ys))"
    by (cases "mapDeps g ds") auto
  from r obtain ys where r2: "r2 = Inr ys" and xs: "xs = x # ys" by (cases r2) auto
  from Cons.IH [OF rest [unfolded r2]] g r1 xs show ?case by simp
qed

lemma foldl_map_add_Some:
  "foldl (++) m0 ms k = Some v \<Longrightarrow> m0 k = Some v \<or> (\<exists>m\<in>set ms. m k = Some v)"
proof (induction ms arbitrary: m0)
  case Nil
  then show ?case by simp
next
  case (Cons m ms)
  from Cons.IH [of "m0 ++ m"] Cons.prems
  have "(m0 ++ m) k = Some v \<or> (\<exists>m\<in>set ms. m k = Some v)" by simp
  then show ?case by (auto simp: map_add_Some_iff)
qed

lemma merge_Some: "merge ms k = Some v \<Longrightarrow> \<exists>m\<in>set ms. m k = Some v"
  using foldl_map_add_Some [of Map.empty ms k v] by (simp add: merge_def)

lemma foldl_map_add_None:
  "foldl (++) m0 ms k = None \<Longrightarrow> m0 k = None \<and> (\<forall>m\<in>set ms. m k = None)"
proof (induction ms arbitrary: m0)
  case Nil
  then show ?case by simp
next
  case (Cons m ms)
  from Cons.IH [of "m0 ++ m"] Cons.prems
  have "(m0 ++ m) k = None \<and> (\<forall>m\<in>set ms. m k = None)" by simp
  then show ?case by (auto simp: map_add_None)
qed

lemma merge_agree:
  assumes "m \<in> set ms" and "m k = Some v"
    and "\<And>m' v'. m' \<in> set ms \<Longrightarrow> m' k = Some v' \<Longrightarrow> v' = v"
  shows "merge ms k = Some v"
proof (cases "merge ms k")
  case None
  from foldl_map_add_None [of Map.empty ms k] None assms(1,2) show ?thesis
    by (auto simp: merge_def)
next
  case (Some v')
  from merge_Some [OF Some] assms(3) Some show ?thesis by auto
qed

lemma fulfilments_Some: "fulfilments ps = Some xs \<Longrightarrow> ps = map Fulfilled xs"
proof (induction ps arbitrary: xs)
  case Nil
  then show ?case by simp
next
  case (Cons p ps)
  then show ?case by (cases p) auto
qed

lemma Promise_all_Fulfilled_iff: "Promise_all ps = Fulfilled xs \<Longrightarrow> ps = map Fulfilled xs"
  by (auto simp: Promise_all_def fulfilments_Some split: if_splits option.splits)

lemma buildProvider_plain:
  "private_buildProvider F p results = (ev, Fulfilled v) \<Longrightarrow> \<not> isThenable v"
  by (auto simp: private_buildProvider_def Let_def dest: resolve_Fulfilled_plain
        split: ProviderType.splits completion.splits)

lemma catch_parent_Fulfilled:
  "catch_parent n r = Inr (Fulfilled m) \<Longrightarrow> r = Promise (Fulfilled m)"
  by (auto simp: catch_parent_def split: ret.splits outcome.splits)

lemma fanIn_Fulfilled:
  assumes "fanIn F p cps = (ev, Fulfilled m)"
  shows "\<exists>depResults result ev'.
           cps = map Fulfilled depResults
           \<and> private_buildProvider F p (merge depResults) = (ev', Fulfilled result)
           \<and> m = (merge depResults)(name p \<mapsto> result)
           \<and> ev = ev' @ (if isCacheable p then [CacheSet (name p) result] else [])"
proof (cases "Promise_all cps")
  case (Fulfilled depResults)
  obtain ev' built where b: "private_buildProvider F p (merge depResults) = (ev', built)"
    by (cases "private_buildProvider F p (merge depResults)")
  from assms Fulfilled b obtain result where res: "built = Fulfilled result"
    by (cases built) (auto simp: fanIn_def)
  from assms Fulfilled b res
  have "m = (merge depResults)(name p \<mapsto> result)"
    and "ev = ev' @ (if isCacheable p then [CacheSet (name p) result] else [])"
    by (auto simp: fanIn_def)
  with b res Promise_all_Fulfilled_iff [OF Fulfilled] show ?thesis by blast
next
  case (Rejected es)
  with assms show ?thesis by (simp add: fanIn_def)
next
  case Pending
  with assms show ?thesis by (simp add: fanIn_def)
qed

lemma fanIn_CacheSet:
  assumes "CacheSet k v \<in> set (fst (fanIn F p cps))"
  shows "\<exists>m. snd (fanIn F p cps) = Fulfilled m \<and> k = name p \<and> m k = Some v \<and> \<not> isThenable v"
proof (cases "Promise_all cps")
  case (Fulfilled depResults)
  obtain ev' built where b: "private_buildProvider F p (merge depResults) = (ev', built)"
    by (cases "private_buildProvider F p (merge depResults)")
  have inv: "CacheSet k v \<notin> set ev'"
    using buildProvider_events [of "CacheSet k v" F p "merge depResults"] b by auto
  show ?thesis
  proof (cases built)
    case (Fulfilled result)
    with b have "\<not> isThenable result" by (auto dest: buildProvider_plain)
    with assms \<open>Promise_all cps = Fulfilled depResults\<close> b Fulfilled inv show ?thesis
      by (auto simp: fanIn_def split: if_splits)
  next
    case (Rejected es)
    with assms \<open>Promise_all cps = Fulfilled depResults\<close> b inv show ?thesis
      by (auto simp: fanIn_def)
  next
    case Pending
    with assms \<open>Promise_all cps = Fulfilled depResults\<close> b inv show ?thesis
      by (auto simp: fanIn_def)
  qed
next
  case (Rejected es)
  with assms show ?thesis by (simp add: fanIn_def)
next
  case Pending
  with assms show ?thesis by (simp add: fanIn_def)
qed


lemma private_build_real:
  assumes le: "\<And>q z. build F this q = Some z \<Longrightarrow> private_build F this q = Some z"
    and body: "(case inj_cache this (name provider) of
        None \<Rightarrow>
          Option.bind
            (mapDeps (depCallback (\<lambda>depProvider. build F this depProvider) this provider)
               (dependencies provider))
            (\<lambda>(ev, r). Some (finish F provider ev r))
      | Some v \<Rightarrow> Some ([], Value v)) = Some y"
  shows "private_build F this provider = Some y"
proof (cases "inj_cache this (name provider)")
  case (Some v)
  with body show ?thesis by (subst private_build.simps) simp
next
  case None
  with body obtain ev r
    where m: "mapDeps (depCallback (build F this) this provider) (dependencies provider) = Some (ev, r)"
      and y: "y = finish F provider ev r"
    by (auto split: Option.bind_splits)
  have "mapDeps (depCallback (private_build F this) this provider) (dependencies provider)
          = Some (ev, r)"
    by (rule mapDeps_le [OF m]) (erule depCallback_le, erule le)
  with None y show ?thesis by (subst private_build.simps) simp
qed

lemma private_build_sound_aux:
  assumes "private_build F this provider = Some y"
  shows "private_build F this provider = Some y
       \<and> (wf_providers (inj_providers this) \<longrightarrow> (\<exists>k. inj_providers this k = Some provider) \<longrightarrow>
            sound F this y \<and> (\<forall>m. snd y = Promise (Fulfilled m) \<longrightarrow> m (name provider) \<noteq> None))"
  using assms
proof (induction rule: private_build.raw_induct [rotated 1, consumes 1])
  case (1 build F this provider y)
  have le: "private_build F this q = Some z" if "build F this q = Some z" for q z
    using 1(1) [OF that] by simp
  have real: "private_build F this provider = Some y"
    by (rule private_build_real [of build, OF le 1(2)])
  have "sound F this y \<and> (\<forall>m. snd y = Promise (Fulfilled m) \<longrightarrow> m (name provider) \<noteq> None)"
    if wf: "wf_providers (inj_providers this)" and reg: "\<exists>k. inj_providers this k = Some provider"
  proof (cases "inj_cache this (name provider)")
    case (Some v)
    with 1(2) show ?thesis by (auto simp: sound_def)
  next
    case None
    with 1(2) obtain ev r
      where m: "mapDeps (depCallback (build F this) this provider) (dependencies provider) = Some (ev, r)"
        and y: "y = finish F provider ev r"
      by (auto split: Option.bind_splits)
    from reg wf have self: "inj_providers this (name provider) = Some provider"
      by (auto simp: wf_providers_def)
    have child: "\<exists>q r1. lookup (inj_providers this) d = Some q \<and> build F this q = Some (ev', r1)
                   \<and> r' = catch_parent (name provider) r1 \<and> sound F this (ev', r1)"
      if "depCallback (build F this) this provider d = Some (ev', r')" and "ev' \<noteq> [] \<or> (\<exists>x. r' = Inr x)"
      for d ev' r'
    proof (cases "lookup (inj_providers this) d")
      case None
      with that show ?thesis by (auto simp: depCallback_def)
    next
      case (Some q)
      with that(1) obtain r1 where b: "build F this q = Some (ev', r1)"
        and r': "r' = catch_parent (name provider) r1"
        by (auto simp: depCallback_def split: Option.bind_splits)
      from Some have "\<exists>k. inj_providers this k = Some q" by (auto simp: lookup_Some)
      with 1(1) [OF b] wf have "sound F this (ev', r1)" by auto
      with Some b r' show ?thesis by simp
    qed
    have ev_built: "built F this k v" if "CacheSet k v \<in> set ev" for k v
    proof -
      from mapDeps_events [OF m that] obtain d ev' r'
        where g: "depCallback (build F this) this provider d = Some (ev', r')"
          and e': "CacheSet k v \<in> set ev'"
        by auto
      from e' have "ev' \<noteq> []" by auto
      with child [OF g] e' show ?thesis by (auto simp: sound_def)
    qed
    show ?thesis
    proof (cases r)
      case (Inl e)
      with y ev_built show ?thesis by (simp add: finish_def sound_def)
    next
      case (Inr cps)
      obtain ev2 out where f: "fanIn F provider cps = (ev2, out)"
        by (cases "fanIn F provider cps")
      with y Inr have y': "y = (ev @ ev2, Promise out)" by (simp add: finish_def)
      have own: "built F this k v \<and> k = name provider" if "CacheSet k v \<in> set ev2" for k v
      proof -
        from fanIn_CacheSet [of k v F provider cps] that f obtain m
          where "out = Fulfilled m" "k = name provider" "m k = Some v" "\<not> isThenable v"
          by auto
        with real y' self show ?thesis unfolding built_def by blast
      qed
      have results: "built F this k v" if out: "out = Fulfilled m" and mk: "m k = Some v" for m k v
      proof -
        from fanIn_Fulfilled [OF f [unfolded out]] obtain depResults result ev'
          where cps: "cps = map Fulfilled depResults"
            and bp: "private_buildProvider F provider (merge depResults) = (ev', Fulfilled result)"
            and mm: "m = (merge depResults)(name provider \<mapsto> result)"
          by blast
        show ?thesis
        proof (cases "k = name provider")
          case True
          with mm mk have "v = result" by simp
          with bp have "\<not> isThenable v" by (auto dest: buildProvider_plain)
          with real y' out self True mk show ?thesis unfolding built_def by blast
        next
          case False
          with mm mk have "merge depResults k = Some v" by simp
          from merge_Some [OF this] obtain mj where mj: "mj \<in> set depResults" "mj k = Some v"
            by auto
          with cps have "Fulfilled mj \<in> set cps" by auto
          with mapDeps_results [OF m [unfolded Inr]] obtain d ev'
            where g: "depCallback (build F this) this provider d = Some (ev', Inr (Fulfilled mj))"
            by (auto simp: list_all2_conv_all_nth in_set_conv_nth)
          from child [OF g] obtain q r1 where "catch_parent (name provider) r1 = Inr (Fulfilled mj)"
            and s: "sound F this (ev', r1)"
            by auto
          from catch_parent_Fulfilled [OF this(1)] s mj(2) show ?thesis
            by (auto simp: sound_def)
        qed
      qed
      have key: "m (name provider) \<noteq> None" if "out = Fulfilled m" for m
        using fanIn_Fulfilled [OF f [unfolded that]] by auto
      from y' ev_built own results key show ?thesis by (auto simp: sound_def)
    qed
  qed
  with real show ?case by blast
qed


lemma private_build_sound:
  assumes "private_build F this provider = Some y"
    and "wf_providers (inj_providers this)" and "inj_providers this k = Some provider"
  shows "sound F this y" and "snd y = Promise (Fulfilled m) \<Longrightarrow> m (name provider) \<noteq> None"
  using private_build_sound_aux [OF assms(1)] assms(2,3) by blast+

lemma mapDeps_all_Inr_events:
  assumes "\<And>k. k \<in> set ks \<Longrightarrow> g (f k) = Some (evf k, Inr (h k))"
  shows "mapDeps g (map f ks) = Some (concat (map evf ks), Inr (map h ks))"
  using assms by (induction ks) auto

text \<open>What a fulfilled \<open>build\<close> says about \<open>_build\<close>.\<close>

lemma build_Fulfilled:
  assumes b: "Injector_build F this d = Some (this', ev, Promise (Fulfilled v))"
    and wf: "wf_providers (inj_providers this)"
  shows "\<exists>q m. inj_providers this d = Some q
           \<and> private_build F this q = Some (ev, Promise (Fulfilled m)) \<and> m d = Some v"
proof (cases "inj_providers this d")
  case None
  with b show ?thesis by (simp add: Injector_build_def)
next
  case (Some q)
  with wf have nq: "name q = d" by (simp add: wf_providers_def)
  from b Some obtain r0 where pb: "private_build F this q = Some (ev, r0)"
    and r: "(case r0 of
               Threw e \<Rightarrow> Threw e
             | Value v \<Rightarrow> Threw (TypeError ''_build(...).then is not a function'')
             | Promise out \<Rightarrow>
                 Promise (case out of
                     Fulfilled results \<Rightarrow> resolve (get results (Name (name q)))
                   | Rejected es \<Rightarrow> Rejected (map (rethrow_chain d) es)
                   | Pending \<Rightarrow> Pending)) = Promise (Fulfilled v)"
    by (auto simp: Injector_build_def split: Option.bind_splits)
  from r obtain m where r0: "r0 = Promise (Fulfilled m)"
    and res: "resolve (get m (Name d)) = Fulfilled v"
    using nq by (auto split: ret.splits outcome.splits)
  from private_build_sound(2) [OF pb wf Some, of m] r0 nq obtain w where w: "m d = Some w"
    by auto
  from private_build_sound(1) [OF pb wf Some] r0 w have "\<not> isThenable w"
    by (auto simp: sound_def built_def)
  with res w have "w = v" by (simp add: get_def resolve_plain)
  with Some pb r0 w show ?thesis by simp
qed

lemma build_passes_values:
  assumes wf: "wf_providers (inj_providers this)"
    and p: "inj_providers this n = Some p"
    and t: "type p \<noteq> CONSTANT"
    and nc: "inj_cache this n = None"
    and ks: "dependencies p = map Name ks"
    and deps: "\<And>k. k \<in> set ks \<Longrightarrow>
                 \<exists>this' ev. Injector_build F this k = Some (this', ev, Promise (Fulfilled (val k)))"
  shows "\<exists>this' ev out. Injector_build F this n = Some (this', ev, Promise out)
           \<and> Invoke n (map val ks) \<in> set ev
           \<and> (\<forall>v. invoke F (type p) (factory p) (map val ks) = Fulfilled v \<longrightarrow> out = Fulfilled v)"
proof -
  from wf p have np: "name p = n" by (simp add: wf_providers_def)
  have "\<forall>k\<in>set ks. \<exists>x. case x of (q, ev, m) \<Rightarrow>
          inj_providers this k = Some q
          \<and> private_build F this q = Some (ev, Promise (Fulfilled m)) \<and> m k = Some (val k)"
  proof
    fix k assume "k \<in> set ks"
    from deps [OF this] obtain this' ev
      where "Injector_build F this k = Some (this', ev, Promise (Fulfilled (val k)))" by blast
    from build_Fulfilled [OF this wf] show "\<exists>x. case x of (q, ev, m) \<Rightarrow>
          inj_providers this k = Some q
          \<and> private_build F this q = Some (ev, Promise (Fulfilled m)) \<and> m k = Some (val k)"
      by auto
  qed
  from bchoice [OF this] obtain h where h: "\<forall>k\<in>set ks. case h k of (q, ev, m) \<Rightarrow>
          inj_providers this k = Some q
          \<and> private_build F this q = Some (ev, Promise (Fulfilled m)) \<and> m k = Some (val k)" ..
  define qf where "qf k = fst (h k)" for k
  define evf where "evf k = fst (snd (h k))" for k
  define mf where "mf k = snd (snd (h k))" for k
  have children: "inj_providers this k = Some (qf k)
      \<and> private_build F this (qf k) = Some (evf k, Promise (Fulfilled (mf k)))
      \<and> mf k k = Some (val k)"
    if "k \<in> set ks" for k
  proof -
    obtain q ev m where hk: "h k = (q, ev, m)" by (cases "h k") auto
    from bspec [OF h that] hk show ?thesis by (simp add: qf_def evf_def mf_def)
  qed
  note child = children [THEN conjunct1] children [THEN conjunct2, THEN conjunct1]
    children [THEN conjunct2, THEN conjunct2]
  let ?args = "map val ks"
  let ?results = "merge (map mf ks)"
  have cb: "depCallback (private_build F this) this p (Name k) = Some (evf k, Inr (Fulfilled (mf k)))"
    if "k \<in> set ks" for k
    using child [OF that] by (simp add: depCallback_def catch_parent_def)
  have m: "mapDeps (depCallback (private_build F this) this p) (dependencies p)
             = Some (concat (map evf ks), Inr (map (\<lambda>k. Fulfilled (mf k)) ks))"
    unfolding ks by (rule mapDeps_all_Inr_events) (rule cb)
  have entry: "get ?results (Name k) = val k" if k: "k \<in> set ks" for k
  proof -
    have "merge (map mf ks) k = Some (val k)"
    proof (rule merge_agree)
      show "mf k \<in> set (map mf ks)" using k by simp
      show "mf k k = Some (val k)" by (rule child(3) [OF k])
    next
      fix m' v' assume "m' \<in> set (map mf ks)" and m': "m' k = Some v'"
      then obtain k' where k': "k' \<in> set ks" "m' = mf k'" by auto
      from private_build_sound(1) [OF child(2) [OF k'(1)] wf child(1) [OF k'(1)]] m' k'(2)
      have "built F this k v'" by (auto simp: sound_def)
      with child(1,2) [OF k] have "mf k k = Some v'" by (auto simp: built_def)
      with child(3) [OF k] show "v' = val k" by simp
    qed
    then show ?thesis by (simp add: get_def)
  qed
  have args: "map (get ?results) (dependencies p) = ?args"
    unfolding ks by (simp add: entry)
  have all: "Promise_all (map (\<lambda>k. Fulfilled (mf k)) ks) = Fulfilled (map mf ks)"
    by (rule Promise_all_Fulfilled)
  have bp: "private_buildProvider F p ?results = ([Invoke n ?args], invoke F (type p) (factory p) ?args)"
    using np t by (cases "type p") (simp_all add: private_buildProvider_def args invoke_def Let_def)
  obtain ev out where f: "fanIn F p (map (\<lambda>k. Fulfilled (mf k)) ks) = (Invoke n ?args # ev, out)"
    and out: "\<And>v. invoke F (type p) (factory p) ?args = Fulfilled v \<Longrightarrow> out = Fulfilled (?results(n \<mapsto> v))"
    using np by (cases "invoke F (type p) (factory p) ?args") (auto simp: fanIn_def all bp)
  have pb: "private_build F this p
              = Some (concat (map evf ks) @ Invoke n ?args # ev, Promise out)"
    using nc np by (subst private_build.simps) (simp add: m finish_def f)
  have top: "(case out of
                Fulfilled results \<Rightarrow> resolve (get results (Name (name p)))
              | Rejected es \<Rightarrow> Rejected (map (rethrow_chain n) es)
              | Pending \<Rightarrow> Pending) = Fulfilled v"
    if "invoke F (type p) (factory p) ?args = Fulfilled v" for v
  proof -
    from that have "\<not> isThenable v"
      by (auto simp: invoke_def dest: resolve_Fulfilled_plain split: completion.splits)
    with out [OF that] np show ?thesis by (simp add: get_def resolve_plain)
  qed
  from p pb top show ?thesis by (simp add: Injector_build_def)
qed

lemma build_failed_keeps_entry:
  assumes b: "Injector_build F this n = Some (this', ev, r)"
    and wf: "wf_providers (inj_providers this)"
    and failed: "\<forall>v. r \<noteq> Promise (Fulfilled v)"
  shows "\<forall>v. CacheSet n v \<notin> set ev"
proof (cases "inj_providers this n")
  case None
  with b show ?thesis by (auto simp: Injector_build_def)
next
  case (Some p)
  with wf have np: "name p = n" by (simp add: wf_providers_def)
  from b Some obtain r0 where pb: "private_build F this p = Some (ev, r0)"
    and r: "r = (case r0 of
               Threw e \<Rightarrow> Threw e
             | Value v \<Rightarrow> Threw (TypeError ''_build(...).then is not a function'')
             | Promise out \<Rightarrow>
                 Promise (case out of
                     Fulfilled results \<Rightarrow> resolve (get results (Name (name p)))
                   | Rejected es \<Rightarrow> Rejected (map (rethrow_chain n) es)
                   | Pending \<Rightarrow> Pending))"
    by (auto simp: Injector_build_def split: Option.bind_splits)
  show ?thesis
  proof (intro allI notI)
    fix v assume "CacheSet n v \<in> set ev"
    with private_build_sound(1) [OF pb wf Some] have "built F this n v"
      by (auto simp: sound_def)
    with Some pb obtain m where r0: "r0 = Promise (Fulfilled m)" and m: "m n = Some v"
      and plain: "\<not> isThenable v"
      by (auto simp: built_def)
    with r np have "r = Promise (Fulfilled v)" by (simp add: get_def resolve_plain)
    with failed show False by simp
  qed
qed




section \<open>Registration\<close>

text \<open>
  C9.  Validation happens in the registration call itself, which returns or throws and
  involves no promise.  \<open>ctor\<close> and \<open>fn\<close> throw the \<open>Error\<close> of \<open>assert\<close> whenever the
  factory is not a function, and \<open>constant\<close> throws it whenever the value is \<open>null\<close> or
  \<open>undefined\<close>; this \<open>Error\<close> is the failure the specification calls InvalidProvider.
  In each of these cases the store of Registry objects is left as it was: no Registry is
  allocated and none is changed, so no provider is added.
\<close>

theorem registration_validation:
  "(typeof f \<noteq> ''function'' \<longrightarrow>
      ctor_at F \<sigma> this n f opts =
        (\<sigma>, Inl (Error (''Cannot provide nonfunction for constructor provider '' @ n)))
    \<and> fn_at F \<sigma> this n f opts =
        (\<sigma>, Inl (Error (''Cannot provide nonfunction for function provider '' @ n))))
   \<and> (v = Null \<or> v = Undefined \<longrightarrow>
      constant_at \<sigma> this n v =
        (\<sigma>, Inl (Error (''Cannot provide null for constant provider '' @ n))))"
  by (auto simp: ctor_at_def fn_at_def constant_at_def returning_def Registry_ctor_def
        Registry_fn_def Registry_constant_def assert_def)

theorem registration_validation_witness:
  "typeof (Obj 0) \<noteq> ''function''
   \<and> ctor_at example_fns [empty_Registry] 0 ''a'' (Obj 0) Omitted =
       ([empty_Registry], Inl (Error ''Cannot provide nonfunction for constructor provider a''))
   \<and> fn_at example_fns [empty_Registry] 0 ''a'' (Obj 0) Omitted =
       ([empty_Registry], Inl (Error ''Cannot provide nonfunction for function provider a''))
   \<and> constant_at [empty_Registry] 0 ''a'' Null =
       ([empty_Registry], Inl (Error ''Cannot provide null for constant provider a''))
   \<and> constant_at [empty_Registry] 0 ''a'' Undefined =
       ([empty_Registry], Inl (Error ''Cannot provide null for constant provider a''))"
  using registration_validation [of "Obj 0" example_fns "[empty_Registry]" 0 "''a''" Omitted Null]
    registration_validation [of "Obj 0" example_fns "[empty_Registry]" 0 "''a''" Omitted Undefined]
  by simp

lemma port_registered:
  "Registry_constant empty_Registry ''port'' (Num 8080) = Inr port_Registry"
  by (simp add: registry_defs port_Registry_def)

lemma greeting_registered:
  "Registry_fn example_fns port_Registry ''greeting'' (Fun 0) (Options cacheable) = Inr greeting_Registry"
  by (simp add: registry_defs getDependencyNames_0 port_Registry_def greeting_Registry_def
        cacheable_def)

lemma greeting_first_build:
  "Injector_build example_fns (buildInjector greeting_Registry) ''greeting'' =
     Some (greeting_Injector,
           [Invoke ''greeting'' [Num 8080], CacheSet ''greeting'' (Str ''listening on 8080'')],
           Promise (Fulfilled (Str ''listening on 8080'')))"
  by (simp add: build_defs greeting_Registry_def greeting_Injector_def example_fns_def)

section \<open>Caching\<close>

text \<open>
  C1.  The scenario of the specification, on the code.  The first \<open>build\<close> of the
  cacheable \<open>greeting\<close> invokes the factory once, caches the result and resolves to it.
  The second \<open>build\<close> on the same Injector does not invoke the factory again, but it
  does not resolve either: \<open>_build\<close> returns the cached value itself, which is no
  promise, and \<open>build\<close> throws a \<open>TypeError\<close> when it calls \<open>then\<close> on it.
\<close>

theorem cached_second_build_throws:
  "Registry_constant empty_Registry ''port'' (Num 8080) = Inr port_Registry
   \<and> Registry_fn example_fns port_Registry ''greeting'' (Fun 0) (Options cacheable) = Inr greeting_Registry
   \<and> Injector_build example_fns (buildInjector greeting_Registry) ''greeting'' =
       Some (greeting_Injector,
             [Invoke ''greeting'' [Num 8080], CacheSet ''greeting'' (Str ''listening on 8080'')],
             Promise (Fulfilled (Str ''listening on 8080'')))
   \<and> Injector_build example_fns greeting_Injector ''greeting'' =
       Some (greeting_Injector, [], Threw (TypeError ''_build(...).then is not a function''))"
proof -
  have "Injector_build example_fns greeting_Injector ''greeting'' =
       Some (greeting_Injector, [], Threw (TypeError ''_build(...).then is not a function''))"
    by (simp add: build_defs greeting_Registry_def greeting_Injector_def)
  with port_registered greeting_registered greeting_first_build show ?thesis by simp
qed

text \<open>
  C2.  One \<open>build\<close> of the top of a diamond invokes the factory of the shared provider
  \<open>d\<close> twice, once under \<open>b\<close> and once under \<open>c\<close>, whether \<open>d\<close> is cacheable or not:
  \<open>_build\<close> keeps no record of the providers a call is already building.
\<close>

theorem diamond_builds_shared_twice:
  "map_option (fst \<circ> snd) (Injector_build example_fns (buildInjector (diamond_Registry False)) ''a'') =
     Some [Invoke ''d'' [], Invoke ''b'' [Obj 3], Invoke ''d'' [], Invoke ''c'' [Obj 3],
           Invoke ''a'' [Obj 2, Obj 2]]
   \<and> map_option (fst \<circ> snd) (Injector_build example_fns (buildInjector (diamond_Registry True)) ''a'') =
     Some [Invoke ''d'' [], CacheSet ''d'' (Obj 3), Invoke ''b'' [Obj 3],
           Invoke ''d'' [], CacheSet ''d'' (Obj 3), Invoke ''c'' [Obj 3],
           Invoke ''a'' [Obj 2, Obj 2]]"
  by (simp add: build_defs diamond_Registry_def example_fns_def)

section \<open>Failures of a build\<close>

text \<open>
  C4.  For a name without a provider, \<open>build\<close> rejects with a plain \<open>Error\<close> whose
  message names it.  When the registered \<open>a\<close> needs the unregistered \<open>b\<close>, \<open>build\<close> of
  \<open>a\<close> does not reject: the assignment to the getter-only \<open>parents\<close> throws a \<open>TypeError\<close>
  out of \<open>build\<close>, and no \<open>ProviderNotFound\<close> with a chain is ever delivered.
\<close>

theorem missing_dependency_throws:
  "Registry_fn example_fns empty_Registry ''a'' (Fun 4) Omitted = Inr dangling_Registry
   \<and> Injector_build example_fns (buildInjector dangling_Registry) ''a'' =
       Some (buildInjector dangling_Registry, [],
             Threw (TypeError ''Cannot set property parents which has only a getter''))
   \<and> Injector_build example_fns (buildInjector empty_Registry) ''x'' =
       Some (buildInjector empty_Registry, [],
             Promise (Rejected [Error (''Provider not found for '' @ [CHR 0x22] @ ''x'' @ [CHR 0x22])]))"
proof -
  have 1: "Registry_fn example_fns empty_Registry ''a'' (Fun 4) Omitted = Inr dangling_Registry"
    by (simp add: registry_defs getDependencyNames_4 dangling_Registry_def)
  have 2: "Injector_build example_fns (buildInjector dangling_Registry) ''a'' =
       Some (buildInjector dangling_Registry, [],
             Threw (TypeError ''Cannot set property parents which has only a getter''))"
    by (simp add: build_defs dangling_Registry_def)
  have 3: "Injector_build example_fns (buildInjector empty_Registry) ''x'' =
       Some (buildInjector empty_Registry, [],
             Promise (Rejected [Error (''Provider not found for '' @ [CHR 0x22] @ ''x'' @ [CHR 0x22])]))"
    by (simp add: build_defs empty_Registry_def new_Registry_def)
  from 1 2 3 show ?thesis by simp
qed

lemma cycle_registered:
  "Registry_fn example_fns empty_Registry ''a'' (Fun 4) Omitted = Inr dangling_Registry"
  "Registry_fn example_fns dangling_Registry ''b'' (Fun 5) Omitted = Inr cycle_Registry"
  by (simp_all add: registry_defs getDependencyNames_4 getDependencyNames_5 dangling_Registry_def
        cycle_Registry_def fun_upd_twist)

lemma cycle_closed: "closed (reg_providers cycle_Registry)"
  by (auto simp: closed_def dependsOn_def cycle_Registry_def fn_Provider_def split: if_splits)

lemma cycle_cyclic: "cyclic (reg_providers cycle_Registry) ''a''"
proof -
  have ab: "(''a'', ''b'') \<in> dependsOn (reg_providers cycle_Registry)"
    by (simp add: dependsOn_def cycle_Registry_def fn_Provider_def)
  have ba: "(''b'', ''a'') \<in> dependsOn (reg_providers cycle_Registry)"
    by (simp add: dependsOn_def cycle_Registry_def fn_Provider_def)
  from ab ba have "(''a'', ''a'') \<in> (dependsOn (reg_providers cycle_Registry))\<^sup>+"
    by (rule trancl_into_trancl [OF r_into_trancl])
  then show ?thesis unfolding cyclic_def by blast
qed

text \<open>
  C3, as stated, fails: for \<open>a\<close> depending on \<open>b\<close> and \<open>b\<close> on \<open>a\<close>, \<open>build\<close> of \<open>a\<close> does
  not fail with a cycle error, it does not return at all.
\<close>

theorem cyclic_build_counterexample:
  "Registry_fn example_fns empty_Registry ''a'' (Fun 4) Omitted = Inr dangling_Registry
   \<and> Registry_fn example_fns dangling_Registry ''b'' (Fun 5) Omitted = Inr cycle_Registry
   \<and> Injector_build example_fns (buildInjector cycle_Registry) ''a'' = None"
  using cycle_registered cyclic_build_diverges [OF cycle_closed cycle_cyclic] by simp

text \<open>
  C3, amended.  The code has no cycle detection and no \<open>CycleDetected\<close> error.  In a
  Registry whose providers list registered dependencies only, whenever a cycle of the
  dependency graph can be reached from the name, \<open>build\<close> on a freshly built Injector
  never returns: the recursion of \<open>_build\<close> is unbounded.
\<close>

theorem cyclic_build_never_returns:
  assumes "closed (reg_providers r)"
    and "(n, c) \<in> (dependsOn (reg_providers r))\<^sup>*"
    and "(c, c) \<in> (dependsOn (reg_providers r))\<^sup>+"
  shows "Injector_build F (buildInjector r) n = None \<and> Registry_build F r n = None"
proof -
  from assms(2,3) have "cyclic (reg_providers r) n" unfolding cyclic_def by blast
  from cyclic_build_diverges [OF assms(1) this] show ?thesis by (simp add: Registry_build_def)
qed

theorem cyclic_build_never_returns_witness:
  "closed (reg_providers cycle_Registry)
   \<and> (''a'', ''b'') \<in> dependsOn (reg_providers cycle_Registry)
   \<and> (''b'', ''a'') \<in> dependsOn (reg_providers cycle_Registry)
   \<and> Injector_build example_fns (buildInjector cycle_Registry) ''a'' = None
   \<and> Registry_build example_fns cycle_Registry ''a'' = None"
proof -
  have ab: "(''a'', ''b'') \<in> dependsOn (reg_providers cycle_Registry)"
    by (simp add: dependsOn_def cycle_Registry_def fn_Provider_def)
  have ba: "(''b'', ''a'') \<in> dependsOn (reg_providers cycle_Registry)"
    by (simp add: dependsOn_def cycle_Registry_def fn_Provider_def)
  from ab ba have aa: "(''a'', ''a'') \<in> (dependsOn (reg_providers cycle_Registry))\<^sup>+"
    by (rule trancl_into_trancl [OF r_into_trancl])
  have refl: "(''a'', ''a'') \<in> (dependsOn (reg_providers cycle_Registry))\<^sup>*" by simp
  from cyclic_build_never_returns [OF cycle_closed refl aa, of example_fns] cycle_closed ab ba
  show ?thesis by simp
qed

section \<open>Constants\<close>

lemma constant_registered:
  assumes "c \<noteq> Null" and "c \<noteq> Undefined"
  shows "Registry_constant r n c =
           Inr \<lparr>reg_providers = (reg_providers r)(n \<mapsto> constant_Provider n c)\<rparr>"
  using assms by (simp add: registry_defs)

lemma build_constant:
  assumes "inj_providers this n = Some (constant_Provider n c)" and "inj_cache this n = None"
    and "\<not> isThenable c"
  shows "Injector_build F this n = Some (this, [], Promise (Fulfilled c))"
proof -
  from assms(3) have "isConstant (constant_Provider n c)"
    by (simp add: isConstant_def constant_Provider_def)
  from private_build_constant [OF this, of this F] assms(2)
  have "private_build F this (constant_Provider n c) = Some ([], Promise (Fulfilled [n \<mapsto> c]))"
    by (simp add: constant_Provider_def)
  with assms(1,3) show ?thesis
    by (simp add: Injector_build_def get_def resolve_plain constant_Provider_def)
qed

text \<open>
  C6, as stated, fails for a constant that is a promise: \<open>constant\<close> accepts it, and
  \<open>build\<close> resolves to the value the promise is fulfilled with, not to the promise.
\<close>

theorem thenable_constant_counterexample:
  "Registry_constant empty_Registry ''p'' (Thenable (Fulfils (Num 5))) = Inr promise_Registry
   \<and> Injector_build example_fns (buildInjector promise_Registry) ''p'' =
       Some (buildInjector promise_Registry, [], Promise (Fulfilled (Num 5)))
   \<and> Injector_build example_fns (buildInjector promise_Registry) ''p'' \<noteq>
       Some (buildInjector promise_Registry, [], Promise (Fulfilled (Thenable (Fulfils (Num 5)))))"
proof -
  have 1: "Registry_constant empty_Registry ''p'' (Thenable (Fulfils (Num 5))) = Inr promise_Registry"
    by (simp add: registry_defs promise_Registry_def)
  have 2: "Injector_build example_fns (buildInjector promise_Registry) ''p'' =
       Some (buildInjector promise_Registry, [], Promise (Fulfilled (Num 5)))"
    by (simp add: build_defs promise_Registry_def)
  from 1 2 show ?thesis by simp
qed

text \<open>
  C6, amended.  For every value \<open>c\<close> that \<open>constant\<close> accepts and that is not a thenable,
  the registration succeeds, and \<open>build\<close> of the name resolves to exactly \<open>c\<close>, with no
  invocation and no change of the Injector: on the freshly built Injector, and on
  every Injector over the new Registry's providers whose cache does not hold the name.
\<close>

theorem constant_build_identity:
  assumes "c \<noteq> Null" and "c \<noteq> Undefined" and "\<not> isThenable c"
  shows "\<exists>r'. Registry_constant r n c = Inr r'
           \<and> Injector_build F (buildInjector r') n = Some (buildInjector r', [], Promise (Fulfilled c))
           \<and> (\<forall>this. inj_providers this = reg_providers r' \<and> inj_cache this n = None \<longrightarrow>
                  Injector_build F this n = Some (this, [], Promise (Fulfilled c)))"
proof -
  let ?r = "\<lparr>reg_providers = (reg_providers r)(n \<mapsto> constant_Provider n c)\<rparr>"
  have "Injector_build F this n = Some (this, [], Promise (Fulfilled c))"
    if "inj_providers this = reg_providers ?r" and "inj_cache this n = None" for this
    by (rule build_constant) (use that assms(3) in simp_all)
  moreover from this [of "buildInjector ?r"]
  have "Injector_build F (buildInjector ?r) n = Some (buildInjector ?r, [], Promise (Fulfilled c))"
    by (simp add: buildInjector_def new_Injector_def)
  ultimately show ?thesis using constant_registered [OF assms(1,2), of r n] by blast
qed

theorem constant_build_identity_witness:
  "Num 8080 \<noteq> Null \<and> Num 8080 \<noteq> Undefined \<and> \<not> isThenable (Num 8080)
   \<and> (\<exists>r'. Registry_constant empty_Registry ''port'' (Num 8080) = Inr r'
          \<and> Injector_build example_fns (buildInjector r') ''port'' =
               Some (buildInjector r', [], Promise (Fulfilled (Num 8080))))"
  using constant_build_identity [of "Num 8080" empty_Registry "''port''" example_fns]
  by auto

section \<open>Registering a name again\<close>

text \<open>
  C5, as stated, fails: a second \<open>constant\<close> for a name that is present does not fail,
  and neither does \<open>fn\<close> with an options object whose \<open>override\<close> is not set.
\<close>

theorem reregistration_counterexample:
  "Registry_constant empty_Registry ''x'' (Num 1) = Inr x1_Registry
   \<and> Registry_constant x1_Registry ''x'' (Num 2) = Inr x2_Registry
   \<and> Registry_fn example_fns x1_Registry ''x'' (Fun 3) (Options no_options) = Inr x3_Registry
   \<and> \<not> opt_override no_options"
  by (simp add: registry_defs x1_Registry_def x2_Registry_def x3_Registry_def
        getDependencyNames_ij)

text \<open>
  C5, amended.  \<open>_add\<close> reads no \<open>override\<close> option and there is no conflict error.  For
  a name that is present in a Registry made by registrations: \<open>fn\<close> and \<open>ctor\<close> with a
  function, and \<open>constant\<close> with a value that is neither \<open>null\<close> nor \<open>undefined\<close>, do what
  \<open>_add\<close> does.  With \<open>null\<close> as options \<open>_add\<close> throws a \<open>TypeError\<close>.  With the options
  left out, or with an options object, whatever its \<open>override\<close> member, \<open>_add\<close> returns
  the Registry that holds under the name the provider made of the arguments of this
  call: the name, the type, the factory, the dependency names as \<open>using\<close> rewrites them,
  and the \<open>isCacheable\<close> flag.  Every other entry is as before, and the same call on any
  Registry with the same other entries, in particular on one without the name, returns
  the very same Registry: nothing of the replaced provider is left for a build to use.
  From the returned Registry, \<open>build\<close> of the name resolves to the new constant when it
  is not a thenable; and for the other types, when the dependencies stored are names
  whose builds resolve to values, it returns a promise and invokes the new factory on
  those values, the promise resolving to what the factory's result is fulfilled with.
\<close>

theorem reregistration_replaces:
  assumes present: "reg_providers r n = Some old"
    and wf: "wf_providers (reg_providers r)"
  shows "Registry_fn F r n (Fun g) a = private_add r n FN (Fun g) (getDependencyNames (F g)) a
       \<and> Registry_ctor F r n (Fun g) a = private_add r n CTOR (Fun g) (getDependencyNames (F g)) a
       \<and> (c \<noteq> Null \<and> c \<noteq> Undefined \<longrightarrow>
            Registry_constant r n c = private_add r n CONSTANT c [] Omitted)
       \<and> private_add r n t f ds NullOptions = Inl (TypeError ''Cannot read property using of null'')
       \<and> private_add r n t f ds Omitted =
            Inr \<lparr>reg_providers = (reg_providers r)(n \<mapsto>
                   \<lparr>name = n, type = t, factory = f, dependencies = map Name ds,
                    isCacheable = False\<rparr>)\<rparr>
       \<and> private_add r n t f ds (Options opts) =
            Inr \<lparr>reg_providers = (reg_providers r)(n \<mapsto>
                   \<lparr>name = n, type = t, factory = f,
                    dependencies = (case opt_using opts of None \<Rightarrow> map Name ds
                                    | Some u \<Rightarrow> map (mapDep u) ds),
                    isCacheable = opt_isCacheable opts\<rparr>)\<rparr>
       \<and> (\<forall>r'. private_add r n t f ds a = Inr r' \<longrightarrow>
             (\<forall>k. k \<noteq> n \<longrightarrow> reg_providers r' k = reg_providers r k)
           \<and> (\<forall>r0. (\<forall>k. k \<noteq> n \<longrightarrow> reg_providers r0 k = reg_providers r k) \<longrightarrow>
                  private_add r0 n t f ds a = Inr r')
           \<and> (t = CONSTANT \<and> ds = [] \<and> a = Omitted \<and> \<not> isThenable f \<longrightarrow>
                  Registry_build F r' n = Some (buildInjector r', [], Promise (Fulfilled f)))
           \<and> (\<forall>ks val. t \<noteq> CONSTANT
                  \<and> map_option dependencies (reg_providers r' n) = Some (map Name ks)
                  \<and> (\<forall>k\<in>set ks. \<exists>this' ev.
                        Registry_build F r' k = Some (this', ev, Promise (Fulfilled (val k)))) \<longrightarrow>
                  (\<exists>this' ev out. Registry_build F r' n = Some (this', ev, Promise out)
                      \<and> Invoke n (map val ks) \<in> set ev
                      \<and> (\<forall>v. invoke F t f (map val ks) = Fulfilled v \<longrightarrow> out = Fulfilled v))))"
proof -
  have api: "Registry_fn F r n (Fun g) a = private_add r n FN (Fun g) (getDependencyNames (F g)) a"
    "Registry_ctor F r n (Fun g) a = private_add r n CTOR (Fun g) (getDependencyNames (F g)) a"
    "c \<noteq> Null \<and> c \<noteq> Undefined \<longrightarrow>
       Registry_constant r n c = private_add r n CONSTANT c [] Omitted"
    by (simp_all add: Registry_fn_def Registry_ctor_def Registry_constant_def assert_def)
  have after: "(\<forall>k. k \<noteq> n \<longrightarrow> reg_providers r' k = reg_providers r k)
           \<and> (\<forall>r0. (\<forall>k. k \<noteq> n \<longrightarrow> reg_providers r0 k = reg_providers r k) \<longrightarrow>
                  private_add r0 n t f ds a = Inr r')
           \<and> (t = CONSTANT \<and> ds = [] \<and> a = Omitted \<and> \<not> isThenable f \<longrightarrow>
                  Registry_build F r' n = Some (buildInjector r', [], Promise (Fulfilled f)))
           \<and> (\<forall>ks val. t \<noteq> CONSTANT
                  \<and> map_option dependencies (reg_providers r' n) = Some (map Name ks)
                  \<and> (\<forall>k\<in>set ks. \<exists>this' ev.
                        Registry_build F r' k = Some (this', ev, Promise (Fulfilled (val k)))) \<longrightarrow>
                  (\<exists>this' ev out. Registry_build F r' n = Some (this', ev, Promise out)
                      \<and> Invoke n (map val ks) \<in> set ev
                      \<and> (\<forall>v. invoke F t f (map val ks) = Fulfilled v \<longrightarrow> out = Fulfilled v)))"
    if r': "private_add r n t f ds a = Inr r'" for r'
  proof -
    from private_add_Inr [OF r'] obtain p
      where p: "reg_providers r' = (reg_providers r)(n \<mapsto> p)"
        and np: "name p = n" "type p = t" "factory p = f"
      by auto
    from wf_providers_add [OF wf r'] have wf': "wf_providers (inj_providers (buildInjector r'))"
      by (simp add: buildInjector_def new_Injector_def)
    have others: "\<forall>k. k \<noteq> n \<longrightarrow> reg_providers r' k = reg_providers r k"
      using p by simp
    have same: "private_add r0 n t f ds a = Inr r'"
      if "\<forall>k. k \<noteq> n \<longrightarrow> reg_providers r0 k = reg_providers r k" for r0
    proof -
      from that have "(reg_providers r0)(n \<mapsto> q) = (reg_providers r)(n \<mapsto> q)" for q
        by (intro ext) simp
      with r' show ?thesis by (cases a) (simp_all add: private_add_def new_Registry_def)
    qed
    have const: "Registry_build F r' n = Some (buildInjector r', [], Promise (Fulfilled f))"
      if "t = CONSTANT \<and> ds = [] \<and> a = Omitted \<and> \<not> isThenable f"
    proof -
      from that r' have "reg_providers r' n = Some (constant_Provider n f)"
        by (auto simp: private_add_Omitted constant_Provider_def)
      then show ?thesis
        unfolding Registry_build_def
        by (intro build_constant) (use that in \<open>simp_all add: buildInjector_def new_Injector_def\<close>)
    qed
    have factory: "\<exists>this' ev out. Registry_build F r' n = Some (this', ev, Promise out)
                      \<and> Invoke n (map val ks) \<in> set ev
                      \<and> (\<forall>v. invoke F t f (map val ks) = Fulfilled v \<longrightarrow> out = Fulfilled v)"
      if t: "t \<noteq> CONSTANT"
        and ks: "map_option dependencies (reg_providers r' n) = Some (map Name ks)"
        and deps: "\<forall>k\<in>set ks. \<exists>this' ev.
                        Registry_build F r' k = Some (this', ev, Promise (Fulfilled (val k)))"
      for ks val
    proof -
      have "\<exists>this' ev out. Injector_build F (buildInjector r') n = Some (this', ev, Promise out)
           \<and> Invoke n (map val ks) \<in> set ev
           \<and> (\<forall>v. invoke F (type p) (factory p) (map val ks) = Fulfilled v \<longrightarrow> out = Fulfilled v)"
      proof (rule build_passes_values [OF wf'])
        show "inj_providers (buildInjector r') n = Some p"
          using p by (simp add: buildInjector_def new_Injector_def)
        show "type p \<noteq> CONSTANT" using t np by simp
        show "inj_cache (buildInjector r') n = None" by (simp add: buildInjector_def new_Injector_def)
        show "dependencies p = map Name ks" using ks p by simp
        show "\<exists>this' ev. Injector_build F (buildInjector r') k =
                Some (this', ev, Promise (Fulfilled (val k)))" if "k \<in> set ks" for k
          using deps that by (simp add: Registry_build_def)
      qed
      with np show ?thesis by (simp add: Registry_build_def)
    qed
    from others same const factory show ?thesis by blast
  qed
  from api private_add_NullOptions [of r n t f ds] private_add_Omitted [of r n t f ds]
    private_add_Options [of r n t f ds opts] after
  show ?thesis by blast
qed

theorem reregistration_replaces_witness:
  "reg_providers x1_Registry ''x'' = Some (constant_Provider ''x'' (Num 1))
   \<and> wf_providers (reg_providers x1_Registry)
   \<and> Registry_constant x1_Registry ''x'' (Num 2) = Inr x2_Registry
   \<and> Registry_build example_fns x2_Registry ''x'' =
       Some (buildInjector x2_Registry, [], Promise (Fulfilled (Num 2)))
   \<and> private_add empty_Registry ''x'' CONSTANT (Num 2) [] Omitted = Inr x2_Registry
   \<and> Registry_fn example_fns x1_Registry ''x'' (Fun 3) (Options no_options) = Inr x3_Registry
   \<and> (\<exists>this' ev. Registry_build example_fns x3_Registry ''x'' =
          Some (this', ev, Promise (Fulfilled (Obj 3))) \<and> Invoke ''x'' [] \<in> set ev)
   \<and> Registry_fn example_fns x1_Registry ''x'' (Fun 3) NullOptions =
       Inl (TypeError ''Cannot read property using of null'')"
proof -
  have 1: "reg_providers x1_Registry ''x'' = Some (constant_Provider ''x'' (Num 1))"
    by (simp add: x1_Registry_def)
  have wf: "wf_providers (reg_providers x1_Registry)"
    by (simp add: wf_providers_def x1_Registry_def constant_Provider_def)
  have 2: "private_add x1_Registry ''x'' CONSTANT (Num 2) [] Omitted = Inr x2_Registry"
    by (simp add: registry_defs x1_Registry_def x2_Registry_def)
  have 3: "private_add x1_Registry ''x'' FN (Fun 3) (getDependencyNames (example_fns 3))
             (Options no_options) = Inr x3_Registry"
    by (simp add: registry_defs x1_Registry_def x3_Registry_def getDependencyNames_ij)
  have inv: "invoke example_fns FN (Fun 3) [] = Fulfilled (Obj 3)"
    by (simp add: invoke_def apply_fn_def example_fns_def)
  note A = reregistration_replaces [OF 1 wf, of example_fns 3 Omitted "Num 2" CONSTANT "Num 2" "[]"]
  note B = reregistration_replaces [OF 1 wf, of example_fns 3 "Options no_options" "Num 2" FN "Fun 3"
      "getDependencyNames (example_fns 3)"]
  note C = reregistration_replaces [OF 1 wf, of example_fns 3 NullOptions "Num 2" FN "Fun 3"
      "getDependencyNames (example_fns 3)"]
  from A 2 have a1: "Registry_constant x1_Registry ''x'' (Num 2) = Inr x2_Registry" by simp
  from A 2 have a2: "Registry_build example_fns x2_Registry ''x'' =
       Some (buildInjector x2_Registry, [], Promise (Fulfilled (Num 2)))"
    by simp
  note A' = A [THEN conjunct2, THEN conjunct2, THEN conjunct2, THEN conjunct2, THEN conjunct2,
      THEN conjunct2, rule_format, OF 2]
  have "private_add empty_Registry ''x'' CONSTANT (Num 2) [] Omitted = Inr x2_Registry"
    by (rule A' [THEN conjunct2, THEN conjunct1, rule_format])
       (simp add: empty_Registry_def new_Registry_def x1_Registry_def)
  note a3 = this
  from B 3 have b1: "Registry_fn example_fns x1_Registry ''x'' (Fun 3) (Options no_options)
                       = Inr x3_Registry"
    by simp
  have deps: "map_option dependencies (reg_providers x3_Registry ''x'') = Some (map Name [])"
    by (simp add: x3_Registry_def fn_Provider_def)
  note B' = B [THEN conjunct2, THEN conjunct2, THEN conjunct2, THEN conjunct2, THEN conjunct2,
      THEN conjunct2, rule_format, OF 3]
  from B' [THEN conjunct2, THEN conjunct2, THEN conjunct2, rule_format, of "[]" "\<lambda>k. Undefined"]
    deps
  have "\<exists>this' ev out. Registry_build example_fns x3_Registry ''x'' =
          Some (this', ev, Promise out) \<and> Invoke ''x'' (map (\<lambda>k. Undefined) []) \<in> set ev
          \<and> (\<forall>v. invoke example_fns FN (Fun 3) (map (\<lambda>k. Undefined) []) = Fulfilled v
                  \<longrightarrow> out = Fulfilled v)"
    by simp
  with inv have b2: "\<exists>this' ev. Registry_build example_fns x3_Registry ''x'' =
          Some (this', ev, Promise (Fulfilled (Obj 3))) \<and> Invoke ''x'' [] \<in> set ev"
    by auto
  from C have c1: "Registry_fn example_fns x1_Registry ''x'' (Fun 3) NullOptions =
       Inl (TypeError ''Cannot read property using of null'')"
    by simp
  from 1 wf a1 a2 a3 b1 b2 c1 show ?thesis by simp
qed

section \<open>The \<open>using\<close> option\<close>




section \<open>Registry objects are never changed\<close>

lemma register_returning:
  "register F \<sigma> this c = returning \<sigma> (call_registration F (\<sigma> ! this) c)"
  by (cases c) (simp_all add: ctor_at_def constant_at_def fn_at_def)

lemma call_registration_providers:
  assumes "call_registration F r c = Inr r'"
  shows "\<exists>p. reg_providers r' = (reg_providers r)(registered_name c \<mapsto> p)"
proof (cases c)
  case (Ctor n f opts)
  with assms obtain g where "private_add r n CTOR f (getDependencyNames (F g)) opts = Inr r'"
    by (auto simp: Registry_ctor_def assert_def split: val.splits if_splits)
  from private_add_Inr [OF this] Ctor show ?thesis by auto
next
  case (Constant n v)
  with assms have "private_add r n CONSTANT v [] Omitted = Inr r'"
    by (auto simp: Registry_constant_def assert_def split: if_splits)
  from private_add_Inr [OF this] Constant show ?thesis by auto
next
  case (Fn n f opts)
  with assms obtain g where "private_add r n FN f (getDependencyNames (F g)) opts = Inr r'"
    by (auto simp: Registry_fn_def assert_def split: val.splits if_splits)
  from private_add_Inr [OF this] Fn show ?thesis by auto
qed

lemma build_unregistered:
  "reg_providers r n = None \<Longrightarrow>
     Registry_build F r n =
       Some (buildInjector r, [],
             Promise (Rejected [Error (''Provider not found for '' @ [CHR 0x22] @ n @ [CHR 0x22])]))"
  by (simp add: Registry_build_def Injector_build_def buildInjector_def new_Injector_def)

text \<open>
  C8.  A registration call on the Registry object at \<open>this\<close> that returns, returns the
  address of a Registry that did not exist before, and every Registry that existed,
  the receiver included, is what it was.  For a second registration on the same
  receiver afterwards (the other fork): the receiver and the first fork are again
  unchanged, the second fork is the Registry that the same call would have made had
  the first fork never been created, and when the name registered on the first fork is
  neither in the common ancestor nor the one registered on the second, building it from
  the second fork finds no provider.
\<close>

theorem registration_allocates:
  assumes "this < length \<sigma>" and "register F \<sigma> this c = (\<sigma>', Inr a)"
  shows "a = length \<sigma> \<and> length \<sigma>' = Suc (length \<sigma>)
       \<and> (\<forall>b<length \<sigma>. \<sigma>' ! b = \<sigma> ! b)
       \<and> (\<forall>c2 \<sigma>'' b. register F \<sigma>' this c2 = (\<sigma>'', Inr b) \<longrightarrow>
             \<sigma>'' ! this = \<sigma> ! this
             \<and> \<sigma>'' ! a = \<sigma>' ! a
             \<and> \<sigma>'' ! b = fst (register F \<sigma> this c2) ! length \<sigma>
             \<and> (registered_name c \<noteq> registered_name c2
                  \<and> reg_providers (\<sigma> ! this) (registered_name c) = None \<longrightarrow>
                  Registry_build F (\<sigma>'' ! b) (registered_name c) =
                    Some (buildInjector (\<sigma>'' ! b), [],
                          Promise (Rejected [Error (''Provider not found for '' @ [CHR 0x22]
                                                     @ registered_name c @ [CHR 0x22])]))))"
proof -
  from assms(2) obtain r1
    where s': "\<sigma>' = \<sigma> @ [r1]" and a: "a = length \<sigma>"
    by (auto simp: register_returning returning_def split: sum.splits)
  from assms(1) s' have same: "\<sigma>' ! this = \<sigma> ! this" by (simp add: nth_append)
  have fork: "\<sigma>'' ! this = \<sigma> ! this
             \<and> \<sigma>'' ! a = \<sigma>' ! a
             \<and> \<sigma>'' ! b = fst (register F \<sigma> this c2) ! length \<sigma>
             \<and> (registered_name c \<noteq> registered_name c2
                  \<and> reg_providers (\<sigma> ! this) (registered_name c) = None \<longrightarrow>
                  Registry_build F (\<sigma>'' ! b) (registered_name c) =
                    Some (buildInjector (\<sigma>'' ! b), [],
                          Promise (Rejected [Error (''Provider not found for '' @ [CHR 0x22]
                                                     @ registered_name c @ [CHR 0x22])])))"
    if b: "register F \<sigma>' this c2 = (\<sigma>'', Inr b)" for c2 \<sigma>'' b
  proof -
    from b same obtain r'
      where res: "call_registration F (\<sigma> ! this) c2 = Inr r'"
        and s'': "\<sigma>'' = \<sigma>' @ [r']" and bb: "b = length \<sigma>'"
      by (auto simp: register_returning returning_def split: sum.splits)
    from call_registration_providers [OF res] obtain p
      where p: "reg_providers r' = (reg_providers (\<sigma> ! this))(registered_name c2 \<mapsto> p)" ..
    have 1: "\<sigma>'' ! this = \<sigma> ! this" using assms(1) s' s'' by (simp add: nth_append)
    have 2: "\<sigma>'' ! a = \<sigma>' ! a" using a s' s'' by (simp add: nth_append)
    have 3: "\<sigma>'' ! b = r'" using bb s'' by simp
    have 4: "fst (register F \<sigma> this c2) ! length \<sigma> = r'"
      using res by (simp add: register_returning returning_def)
    have 5: "Registry_build F r' (registered_name c) =
               Some (buildInjector r', [],
                     Promise (Rejected [Error (''Provider not found for '' @ [CHR 0x22]
                                                @ registered_name c @ [CHR 0x22])]))"
      if "registered_name c \<noteq> registered_name c2"
        and "reg_providers (\<sigma> ! this) (registered_name c) = None"
      by (rule build_unregistered) (use that p in simp)
    from 1 2 3 4 5 show ?thesis by simp
  qed
  have old: "\<forall>b<length \<sigma>. \<sigma>' ! b = \<sigma> ! b" using s' by (simp add: nth_append)
  from a s' have "a = length \<sigma> \<and> length \<sigma>' = Suc (length \<sigma>)" by simp
  with old fork show ?thesis by blast
qed

theorem registration_allocates_witness:
  "0 < length [empty_Registry]
   \<and> register example_fns [empty_Registry] 0 (Constant ''port'' (Num 8080)) =
       ([empty_Registry, port_Registry], Inr 1)
   \<and> [empty_Registry, port_Registry] ! 0 = [empty_Registry] ! 0
   \<and> register example_fns [empty_Registry, port_Registry] 0 (Constant ''x'' (Num 1)) =
       ([empty_Registry, port_Registry, x1_Registry], Inr 2)
   \<and> [empty_Registry, port_Registry, x1_Registry] ! 0 = empty_Registry
   \<and> [empty_Registry, port_Registry, x1_Registry] ! 1 = port_Registry
   \<and> Registry_build example_fns x1_Registry ''port'' =
       Some (buildInjector x1_Registry, [],
             Promise (Rejected [Error (''Provider not found for '' @ [CHR 0x22] @ ''port'' @ [CHR 0x22])]))"
proof -
  have l: "0 < length [empty_Registry]" by simp
  have A: "register example_fns [empty_Registry] 0 (Constant ''port'' (Num 8080)) =
       ([empty_Registry, port_Registry], Inr 1)"
    by (simp add: constant_at_def returning_def registry_defs port_Registry_def)
  have B: "register example_fns [empty_Registry, port_Registry] 0 (Constant ''x'' (Num 1)) =
       ([empty_Registry, port_Registry, x1_Registry], Inr 2)"
    by (simp add: constant_at_def returning_def registry_defs x1_Registry_def)
  have none: "registered_name (Constant ''port'' (Num 8080)) \<noteq> registered_name (Constant ''x'' (Num 1))
      \<and> reg_providers ([empty_Registry] ! 0) (registered_name (Constant ''port'' (Num 8080))) = None"
    by (simp add: empty_Registry_def new_Registry_def)
  note fork = registration_allocates [OF l A, THEN conjunct2, THEN conjunct2, THEN conjunct2,
      rule_format, OF B]
  note unseen = fork [THEN conjunct2, THEN conjunct2, THEN conjunct2, rule_format, OF none]
  from unseen
  have "Registry_build example_fns x1_Registry ''port'' =
       Some (buildInjector x1_Registry, [],
             Promise (Rejected [Error (''Provider not found for '' @ [CHR 0x22] @ ''port'' @ [CHR 0x22])]))"
    by simp
  with l A B show ?thesis by simp
qed

section \<open>The cache of an Injector\<close>

text \<open>
  C10.  For a call of \<open>build\<close> that returns, on an Injector whose providers are stored
  under their own names: the providers are unchanged; every entry of the cache stays,
  with its value; an entry that is new was set by the call; every cache assignment of
  the call is justified, that is, made under a name the cache did not hold, for a
  cacheable provider, with the value its construction was fulfilled with; so the names
  in the cache stay names of cacheable providers.  When the promise of the call is not
  fulfilled, the cache holds under the requested name what it held before.  The
  continuation of \<open>_build\<close> makes no cache assignment when its promise is not fulfilled,
  in particular when the construction fails.  A freshly built Injector has an empty
  cache, and registration keeps providers stored under their own names.
\<close>

theorem cache_invariant:
  assumes b: "Injector_build F this n = Some (this', ev, r)"
    and wf: "wf_providers (inj_providers this)"
  shows "inj_providers this' = inj_providers this
    \<and> (\<forall>k v. inj_cache this k = Some v \<longrightarrow> inj_cache this' k = Some v)
    \<and> (\<forall>k v. inj_cache this' k = Some v \<longrightarrow> inj_cache this k = Some v \<or> CacheSet k v \<in> set ev)
    \<and> (\<forall>e\<in>set ev. justified F this e)
    \<and> (cache_ok this \<longrightarrow> cache_ok this')
    \<and> ((\<forall>v. r \<noteq> Promise (Fulfilled v)) \<longrightarrow> inj_cache this' n = inj_cache this n)
    \<and> (\<forall>p cps. (\<forall>m. snd (fanIn F p cps) \<noteq> Fulfilled m) \<longrightarrow>
            \<not> list_ex isCacheSet (fst (fanIn F p cps)))
    \<and> cache_ok (buildInjector reg)
    \<and> (wf_providers (reg_providers reg) \<longrightarrow>
          (\<forall>reg'. private_add reg m t f ds opts = Inr reg' \<longrightarrow> wf_providers (reg_providers reg')))"
proof -
  have root: "(\<forall>v. r \<noteq> Promise (Fulfilled v)) \<longrightarrow> inj_cache this' n = inj_cache this n"
  proof
    assume "\<forall>v. r \<noteq> Promise (Fulfilled v)"
    from build_failed_keeps_entry [OF b wf this]
    have "fold apply_event ev (inj_cache this) n = inj_cache this n"
      by (rule fold_apply_event_keep)
    moreover from b have "inj_cache this' = fold apply_event ev (inj_cache this)"
      by (auto simp: Injector_build_def split: Option.bind_splits option.splits)
    ultimately show "inj_cache this' n = inj_cache this n" by simp
  qed
  have main: "inj_providers this' = inj_providers this
    \<and> (\<forall>k v. inj_cache this k = Some v \<longrightarrow> inj_cache this' k = Some v)
    \<and> (\<forall>k v. inj_cache this' k = Some v \<longrightarrow> inj_cache this k = Some v \<or> CacheSet k v \<in> set ev)
    \<and> (\<forall>e\<in>set ev. justified F this e)
    \<and> (cache_ok this \<longrightarrow> cache_ok this')"
  proof (cases "inj_providers this n")
    case None
    with b show ?thesis by (auto simp: Injector_build_def)
  next
    case (Some p)
    with b obtain r0 where pb: "private_build F this p = Some (ev, r0)"
      and this': "this' = this\<lparr>inj_cache := fold apply_event ev (inj_cache this)\<rparr>"
      by (auto simp: Injector_build_def split: Option.bind_splits)
    from private_build_events [OF pb] wf Some have just: "\<forall>e\<in>set ev. justified F this e" by auto
    have keep: "inj_cache this' k = Some v" if "inj_cache this k = Some v" for k v
    proof -
      from just that have "\<forall>w. CacheSet k w \<notin> set ev" by (auto simp: justified_def)
      from fold_apply_event_keep [OF this] that this' show ?thesis by simp
    qed
    have new: "inj_cache this k = Some v \<or> CacheSet k v \<in> set ev"
      if "inj_cache this' k = Some v" for k v
      using that this' fold_apply_event_Some [of ev "inj_cache this" k v] by simp
    have ok: "cache_ok this'" if "cache_ok this"
      unfolding cache_ok_def
    proof (intro allI impI)
      fix k assume "inj_cache this' k \<noteq> None"
      then obtain v where "inj_cache this' k = Some v" by auto
      from new [OF this] show "\<exists>p. inj_providers this' k = Some p \<and> isCacheable p"
      proof
        assume "inj_cache this k = Some v"
        with that this' show ?thesis by (auto simp: cache_ok_def)
      next
        assume "CacheSet k v \<in> set ev"
        with just have "justified F this (CacheSet k v)" by blast
        with this' show ?thesis by (auto simp: justified_def)
      qed
    qed
    from this' keep new just ok show ?thesis by auto
  qed
  have fresh: "cache_ok (buildInjector reg)"
    by (simp add: cache_ok_def buildInjector_def new_Injector_def)
  have failed: "\<forall>p cps. (\<forall>m. snd (fanIn F p cps) \<noteq> Fulfilled m) \<longrightarrow>
            \<not> list_ex isCacheSet (fst (fanIn F p cps))"
    using fanIn_failed_no_CacheSet by blast
  have add: "wf_providers (reg_providers reg) \<longrightarrow>
          (\<forall>reg'. private_add reg m t f ds opts = Inr reg' \<longrightarrow> wf_providers (reg_providers reg'))"
    using wf_providers_add by blast
  from main root failed fresh add show ?thesis by (elim conjE) (intro conjI; assumption)
qed

theorem cache_invariant_witness:
  "wf_providers (inj_providers (buildInjector greeting_Registry))
   \<and> Injector_build example_fns (buildInjector greeting_Registry) ''greeting'' =
       Some (greeting_Injector,
             [Invoke ''greeting'' [Num 8080], CacheSet ''greeting'' (Str ''listening on 8080'')],
             Promise (Fulfilled (Str ''listening on 8080'')))
   \<and> cache_ok (buildInjector greeting_Registry)
   \<and> cache_ok greeting_Injector
   \<and> inj_providers greeting_Injector = inj_providers (buildInjector greeting_Registry)
   \<and> justified example_fns (buildInjector greeting_Registry)
        (CacheSet ''greeting'' (Str ''listening on 8080''))"
proof -
  have wf: "wf_providers (inj_providers (buildInjector greeting_Registry))"
    by (auto simp: wf_providers_def buildInjector_def new_Injector_def greeting_Registry_def
          constant_Provider_def fn_Provider_def split: if_splits)
  from cache_invariant [OF greeting_first_build wf, of greeting_Registry]
  have "inj_providers greeting_Injector = inj_providers (buildInjector greeting_Registry)"
    and "cache_ok (buildInjector greeting_Registry) \<longrightarrow> cache_ok greeting_Injector"
    and "cache_ok (buildInjector greeting_Registry)"
    and "justified example_fns (buildInjector greeting_Registry)
           (CacheSet ''greeting'' (Str ''listening on 8080''))"
    by simp_all
  with wf greeting_first_build show ?thesis by simp
qed

end
